theory Spec2Isabelle
  imports Complex_Main "HOL-Library.Word" "HOL-Library.Log_Nat"
begin

section \<open>The bounded LRU container (lru.go)\<close>

text \<open>
  Keys are Go's \<open>uint64\<close>. A value is Go's \<open>any\<close>: \<open>None\<close> is \<open>nil\<close> (what the
  ghost lists store), \<open>Some v\<close> a payload. Go's 64-bit \<open>int\<close> (sizes, lengths, the ARC
  parameter) is taken as an unbounded integer. The code compares lengths, divides one
  length by another and forms one sum, \<open>p + delta\<close> in \<open>ARCCache.Put\<close>, which is at
  most \<open>size + len(B2)\<close>; a ghost list is non-empty only after T1 and T2 together have
  held \<open>size\<close> entries, so nothing wraps unless a list holds some \<open>2^61\<close> entries.
\<close>

type_synonym key = "64 word"

record 'v Item =
  Key :: key
  Value :: "'v option"

text \<open>
  \<open>LRU\<close> has the fields \<open>size\<close>, \<open>evictList\<close> (a doubly linked list, front first) and
  \<open>items\<close> (the index from a key to the list element that holds it). The index is never
  changed alone: \<open>Put\<close> stores the element it has just linked, \<open>removeElement\<close> deletes
  the key of the element it has just unlinked, \<open>Purge\<close> empties both, and nothing else
  writes either field. So after every method the index maps a key to the one element of
  the list with this key, and to nothing when the list has none. The model keeps the list
  and reads the index from it: \<open>items\<close> below is the lookup \<open>c.items[key]\<close>. An element
  pointer is the element of the list with that key.
\<close>

record 'v LRU =
  size_LRU :: int
  evictList :: "'v Item list"

datatype error = Error string

definition NewLRU :: "int \<Rightarrow> error + 'v LRU" where
  "NewLRU sz =
     (if sz \<le> 0 then Inl (Error ''must provide a positive size'')
      else Inr \<lparr>size_LRU = sz, evictList = []\<rparr>)"

definition items :: "'v LRU \<Rightarrow> key \<Rightarrow> 'v Item option" where
  "items c k = find (\<lambda>e. Key e = k) (evictList c)"

text \<open>\<open>evictList.Remove(ele)\<close> for the element that \<open>items\<close> holds under the key.\<close>

fun list_Remove :: "key \<Rightarrow> 'v Item list \<Rightarrow> 'v Item list" where
  "list_Remove k [] = []"
| "list_Remove k (e # es) = (if Key e = k then es else e # list_Remove k es)"

definition LRU_Len :: "'v LRU \<Rightarrow> int" where
  "LRU_Len c = int (length (evictList c))"

definition LRU_Get :: "'v LRU \<Rightarrow> key \<Rightarrow> ('v option \<times> bool) \<times> 'v LRU" where
  "LRU_Get c k =
     (case items c k of
        Some ele \<Rightarrow> ((Value ele, True), c\<lparr>evictList := ele # list_Remove k (evictList c)\<rparr>)
      | None \<Rightarrow> ((None, False), c))"

text \<open>
  \<open>removeElement\<close> unlinks the element its argument points to and deletes its key from
  the index. \<open>removeOldest\<close> and \<open>getAndRemoveOldest\<close> pass the back element,
  \<open>removeIfExist\<close> the element found under the key.
\<close>

definition removeOldest :: "'v LRU \<Rightarrow> 'v LRU" where
  "removeOldest c =
     (if evictList c = [] then c else c\<lparr>evictList := butlast (evictList c)\<rparr>)"

definition getAndRemoveOldest :: "'v LRU \<Rightarrow> (key \<times> 'v option \<times> bool) \<times> 'v LRU" where
  "getAndRemoveOldest c =
     (if evictList c = [] then ((0, None, False), c)
      else ((Key (last (evictList c)), Value (last (evictList c)), True),
            c\<lparr>evictList := butlast (evictList c)\<rparr>))"

definition removeIfExist :: "'v LRU \<Rightarrow> key \<Rightarrow> bool \<times> 'v LRU" where
  "removeIfExist c k =
     (case items c k of
        Some ele \<Rightarrow> (True, c\<lparr>evictList := list_Remove k (evictList c)\<rparr>)
      | None \<Rightarrow> (False, c))"

definition LRU_Put :: "'v LRU \<Rightarrow> key \<Rightarrow> 'v option \<Rightarrow> 'v LRU" where
  "LRU_Put c k v =
     (case items c k of
        Some ele \<Rightarrow> c\<lparr>evictList := ele\<lparr>Value := v\<rparr> # list_Remove k (evictList c)\<rparr>
      | None \<Rightarrow>
          (let c' = c\<lparr>evictList := \<lparr>Key = k, Value = v\<rparr> # evictList c\<rparr>
           in if LRU_Len c' > size_LRU c' then removeOldest c' else c'))"

definition LRU_Peek :: "'v LRU \<Rightarrow> key \<Rightarrow> 'v option \<times> bool" where
  "LRU_Peek c k =
     (case items c k of Some ele \<Rightarrow> (Value ele, True) | None \<Rightarrow> (None, False))"

definition LRU_Remove :: "'v LRU \<Rightarrow> key \<Rightarrow> 'v LRU" where
  "LRU_Remove c k = snd (removeIfExist c k)"

definition LRU_Purge :: "'v LRU \<Rightarrow> 'v LRU" where
  "LRU_Purge c = c\<lparr>evictList := []\<rparr>"

definition LRU_Items :: "'v LRU \<Rightarrow> 'v Item list" where
  "LRU_Items c = evictList c"

definition contains :: "'v LRU \<Rightarrow> key \<Rightarrow> bool" where
  "contains c k = (items c k \<noteq> None)"

text \<open>
  The public operations as data, and the container after a sequence of calls. \<open>Peek\<close>,
  \<open>Items\<close> and \<open>Len\<close> only read.
\<close>

datatype 'v cache_op =
    Op_Get key
  | Op_Put key "'v option"
  | Op_Peek key
  | Op_Remove key
  | Op_Purge
  | Op_Items
  | Op_Len

fun LRU_call :: "'v LRU \<Rightarrow> 'v cache_op \<Rightarrow> 'v LRU" where
  "LRU_call c (Op_Get k) = snd (LRU_Get c k)"
| "LRU_call c (Op_Put k v) = LRU_Put c k v"
| "LRU_call c (Op_Peek k) = c"
| "LRU_call c (Op_Remove k) = LRU_Remove c k"
| "LRU_call c Op_Purge = LRU_Purge c"
| "LRU_call c Op_Items = c"
| "LRU_call c Op_Len = c"

definition LRU_calls :: "'v LRU \<Rightarrow> 'v cache_op list \<Rightarrow> 'v LRU" where
  "LRU_calls c ops = foldl LRU_call c ops"

text \<open>The keys of a container, front first.\<close>

definition LRU_keys :: "'v LRU \<Rightarrow> key list" where
  "LRU_keys c = map Key (evictList c)"

section \<open>The Two-Queue cache (two_queue.go)\<close>

record 'v TwoQueueCache =
  size_TwoQueueCache :: int
  recentSize :: int
  recent :: "'v LRU"
  frequent :: "'v LRU"
  evict :: "'v LRU"

text \<open>
  Go's \<open>float64\<close>. \<open>Finite m e\<close> is the number \<open>m * 2^e\<close>; the doubles are the values
  with \<open>|m| < 2^53\<close> and \<open>e \<ge> -1074\<close> below \<open>2^1024\<close>, the two infinities and NaN. The
  sign of a zero is not kept: the code only compares, multiplies and converts, and none of
  these tells the two zeros apart.
\<close>

datatype float64 = Finite int int | PosInf | NegInf | NaN

text \<open>
  A finite result \<open>m * 2^e\<close> of a rounding overflows to an infinity of its sign when
  its magnitude is \<open>2^1024\<close> or more.
\<close>

definition f64_finite :: "int \<Rightarrow> int \<Rightarrow> float64" where
  "f64_finite m e =
     (if m \<noteq> 0 \<and> 1024 < bitlen \<bar>m\<bar> + e then (if 0 < m then PosInf else NegInf)
      else Finite m e)"

text \<open>
  Rounding of the exact value \<open>m * 2^e\<close> to the nearest double, ties going to the even
  significand: the significand keeps 53 bits, fewer below \<open>2^-1022\<close>, where the spacing
  of the doubles stays \<open>2^-1074\<close>.
\<close>

definition f64_round :: "int \<Rightarrow> int \<Rightarrow> float64" where
  "f64_round m e =
     (let k = max (bitlen \<bar>m\<bar> - 53) (- 1074 - e)
      in if k \<le> 0 then f64_finite m e
         else
           (let d = 2 ^ nat k;
                q = \<bar>m\<bar> div d;
                r = \<bar>m\<bar> mod d
            in f64_finite (sgn m * (if d < 2 * r \<or> (2 * r = d \<and> odd q) then q + 1 else q))
                 (e + k)))"

text \<open>The conversion \<open>float64(size)\<close>.\<close>

definition float64 :: "int \<Rightarrow> float64" where
  "float64 n = f64_round n 0"

text \<open>The product \<open>x * y\<close> of two doubles: the exact product, rounded.\<close>

definition f64_sign :: "float64 \<Rightarrow> int" where
  "f64_sign x = (case x of Finite m e \<Rightarrow> sgn m | PosInf \<Rightarrow> 1 | NegInf \<Rightarrow> - 1 | NaN \<Rightarrow> 0)"

definition f64_mul :: "float64 \<Rightarrow> float64 \<Rightarrow> float64" where
  "f64_mul x y =
     (case (x, y) of
        (Finite m1 e1, Finite m2 e2) \<Rightarrow> f64_round (m1 * m2) (e1 + e2)
      | _ \<Rightarrow>
          if x = NaN \<or> y = NaN \<or> f64_sign x * f64_sign y = 0 then NaN
          else if 0 < f64_sign x * f64_sign y then PosInf
          else NegInf)"

text \<open>The comparison \<open>x < y\<close>; it is false when either side is NaN.\<close>

fun f64_less :: "float64 \<Rightarrow> float64 \<Rightarrow> bool" where
  "f64_less (Finite m1 e1) (Finite m2 e2) =
     (m1 * 2 ^ nat (e1 - min e1 e2) < m2 * 2 ^ nat (e2 - min e1 e2))"
| "f64_less NaN y = False"
| "f64_less x NaN = False"
| "f64_less x NegInf = False"
| "f64_less NegInf y = True"
| "f64_less PosInf y = False"
| "f64_less x PosInf = True"

text \<open>
  The conversion \<open>int(x)\<close> of a double drops the fraction, towards zero. When the result
  does not fit the 64-bit \<open>int\<close>, or \<open>x\<close> is NaN or infinite, Go leaves the value to the
  implementation; the amd64 conversion instruction gives \<open>-2^63\<close> then.
\<close>

definition int_of_float64 :: "float64 \<Rightarrow> int" where
  "int_of_float64 x =
     (case x of
        Finite m e \<Rightarrow>
          (let t = (if 0 \<le> e then m * 2 ^ nat e else sgn m * (\<bar>m\<bar> div 2 ^ nat (- e)))
           in if - (2 ^ 63) \<le> t \<and> t < 2 ^ 63 then t else - (2 ^ 63))
      | _ \<Rightarrow> - (2 ^ 63))"

text \<open>The constants \<open>0.25\<close> and \<open>0.50\<close>.\<close>

definition defaultRecentRatio :: float64 where
  "defaultRecentRatio = Finite 1 (- 2)"

definition defaultGhostRatio :: float64 where
  "defaultGhostRatio = Finite 1 (- 1)"

definition newTowQueueParams :: "int \<Rightarrow> float64 \<Rightarrow> float64 \<Rightarrow> error + 'v TwoQueueCache" where
  "newTowQueueParams sz recentRatio ghostRatio =
     (if sz \<le> 0 then Inl (Error ''must provide a positive size'')
      else if f64_less recentRatio (Finite 0 0) \<or> f64_less (Finite 1 0) recentRatio
      then Inl (Error ''invalid recent ratio'')
      else if f64_less ghostRatio (Finite 0 0) \<or> f64_less (Finite 1 0) ghostRatio
      then Inl (Error ''invalid ghost ratio'')
      else
        (let recentSz = int_of_float64 (f64_mul (float64 sz) recentRatio);
             evictSz = int_of_float64 (f64_mul (float64 sz) ghostRatio)
         in case NewLRU sz of
              Inl err \<Rightarrow> Inl err
            | Inr rec \<Rightarrow>
               (case NewLRU sz of
                  Inl err \<Rightarrow> Inl err
                | Inr freq \<Rightarrow>
                   (case NewLRU evictSz of
                      Inl err \<Rightarrow> Inl err
                    | Inr ev \<Rightarrow>
                        Inr \<lparr>size_TwoQueueCache = sz, recentSize = recentSz,
                             recent = rec, frequent = freq, evict = ev\<rparr>))))"

definition NewTwoQueueCache :: "int \<Rightarrow> error + 'v TwoQueueCache" where
  "NewTwoQueueCache sz = newTowQueueParams sz defaultRecentRatio defaultGhostRatio"

definition TwoQueueCache_Get ::
    "'v TwoQueueCache \<Rightarrow> key \<Rightarrow> ('v option \<times> bool) \<times> 'v TwoQueueCache" where
  "TwoQueueCache_Get c k =
     (if snd (fst (LRU_Get (frequent c) k))
      then (fst (LRU_Get (frequent c) k), c\<lparr>frequent := snd (LRU_Get (frequent c) k)\<rparr>)
      else
        (let c1 = c\<lparr>frequent := snd (LRU_Get (frequent c) k)\<rparr>;
             val = fst (LRU_Peek (recent c1) k)
         in if snd (LRU_Peek (recent c1) k)
            then
              (let c2 = c1\<lparr>recent := LRU_Remove (recent c1) k\<rparr>
               in ((val, True), c2\<lparr>frequent := LRU_Put (frequent c2) k val\<rparr>))
            else ((None, False), c1)))"

definition ensureSpace :: "'v TwoQueueCache \<Rightarrow> bool \<Rightarrow> 'v TwoQueueCache" where
  "ensureSpace c recentEvict =
     (if LRU_Len (recent c) + LRU_Len (frequent c) < size_TwoQueueCache c then c
      else if LRU_Len (recent c) > 0
              \<and> (LRU_Len (recent c) > recentSize c
                  \<or> (LRU_Len (recent c) = recentSize c \<and> \<not> recentEvict))
      then
        (let k = fst (fst (getAndRemoveOldest (recent c)));
             c1 = c\<lparr>recent := snd (getAndRemoveOldest (recent c))\<rparr>
         in c1\<lparr>evict := LRU_Put (evict c1) k None\<rparr>)
      else c\<lparr>frequent := removeOldest (frequent c)\<rparr>)"

definition TwoQueueCache_Put :: "'v TwoQueueCache \<Rightarrow> key \<Rightarrow> 'v option \<Rightarrow> 'v TwoQueueCache" where
  "TwoQueueCache_Put c k v =
     (if contains (frequent c) k then c\<lparr>frequent := LRU_Put (frequent c) k v\<rparr>
      else if contains (recent c) k
      then
        (let c1 = c\<lparr>recent := LRU_Remove (recent c) k\<rparr>
         in c1\<lparr>frequent := LRU_Put (frequent c1) k v\<rparr>)
      else if contains (evict c) k
      then
        (let c1 = ensureSpace c True;
             c2 = c1\<lparr>evict := LRU_Remove (evict c1) k\<rparr>
         in c2\<lparr>frequent := LRU_Put (frequent c2) k v\<rparr>)
      else
        (let c1 = ensureSpace c False
         in c1\<lparr>recent := LRU_Put (recent c1) k v\<rparr>))"

definition TwoQueueCache_Peek :: "'v TwoQueueCache \<Rightarrow> key \<Rightarrow> 'v option \<times> bool" where
  "TwoQueueCache_Peek c k =
     (if snd (LRU_Peek (frequent c) k) then LRU_Peek (frequent c) k
      else LRU_Peek (recent c) k)"

definition TwoQueueCache_Remove :: "'v TwoQueueCache \<Rightarrow> key \<Rightarrow> 'v TwoQueueCache" where
  "TwoQueueCache_Remove c k =
     (if fst (removeIfExist (frequent c) k)
      then c\<lparr>frequent := snd (removeIfExist (frequent c) k)\<rparr>
      else
        (let c1 = c\<lparr>frequent := snd (removeIfExist (frequent c) k)\<rparr>
         in if fst (removeIfExist (recent c1) k)
            then c1\<lparr>recent := snd (removeIfExist (recent c1) k)\<rparr>
            else
              (let c2 = c1\<lparr>recent := snd (removeIfExist (recent c1) k)\<rparr>
               in c2\<lparr>evict := snd (removeIfExist (evict c2) k)\<rparr>)))"

definition TwoQueueCache_Purge :: "'v TwoQueueCache \<Rightarrow> 'v TwoQueueCache" where
  "TwoQueueCache_Purge c =
     c\<lparr>recent := LRU_Purge (recent c), frequent := LRU_Purge (frequent c),
       evict := LRU_Purge (evict c)\<rparr>"

definition TwoQueueCache_Len :: "'v TwoQueueCache \<Rightarrow> int" where
  "TwoQueueCache_Len c = LRU_Len (recent c) + LRU_Len (frequent c)"

definition TwoQueueCache_Items :: "'v TwoQueueCache \<Rightarrow> 'v Item list" where
  "TwoQueueCache_Items c = LRU_Items (recent c) @ LRU_Items (frequent c)"

fun TwoQueueCache_call :: "'v TwoQueueCache \<Rightarrow> 'v cache_op \<Rightarrow> 'v TwoQueueCache" where
  "TwoQueueCache_call c (Op_Get k) = snd (TwoQueueCache_Get c k)"
| "TwoQueueCache_call c (Op_Put k v) = TwoQueueCache_Put c k v"
| "TwoQueueCache_call c (Op_Peek k) = c"
| "TwoQueueCache_call c (Op_Remove k) = TwoQueueCache_Remove c k"
| "TwoQueueCache_call c Op_Purge = TwoQueueCache_Purge c"
| "TwoQueueCache_call c Op_Items = c"
| "TwoQueueCache_call c Op_Len = c"

definition TwoQueueCache_calls :: "'v TwoQueueCache \<Rightarrow> 'v cache_op list \<Rightarrow> 'v TwoQueueCache" where
  "TwoQueueCache_calls c ops = foldl TwoQueueCache_call c ops"

section \<open>The Adaptive Replacement Cache (arc.go)\<close>

record 'v ARCCache =
  size_ARCCache :: int
  p :: int
  t1 :: "'v LRU"
  b1 :: "'v LRU"
  t2 :: "'v LRU"
  b2 :: "'v LRU"

text \<open>
  Modelled from the spec: arc.go calls the methods \<open>Contains\<close>, \<open>RemoveOldest\<close>,
  \<open>GetAndRemoveOldest\<close> and a \<open>Remove\<close> with a boolean result on its \<open>*LRU\<close> fields.
  lru.go declares \<open>contains\<close>, \<open>removeOldest\<close>, \<open>getAndRemoveOldest\<close> and
  \<open>removeIfExist\<close>, and a \<open>Remove\<close> that calls \<open>removeIfExist\<close> and returns nothing.
  The spec (4.1) names contains, removeOldest and getAndRemoveOldest as the helpers that the
  higher layers need and gives \<open>Remove(key) -> removed\<close>: "deletes the entry if present;
  reports whether it existed". The four names that arc.go uses are these functions.
\<close>

definition Contains :: "'v LRU \<Rightarrow> key \<Rightarrow> bool" where
  "Contains c k = contains c k"

definition RemoveOldest :: "'v LRU \<Rightarrow> 'v LRU" where
  "RemoveOldest c = removeOldest c"

definition GetAndRemoveOldest :: "'v LRU \<Rightarrow> (key \<times> 'v option \<times> bool) \<times> 'v LRU" where
  "GetAndRemoveOldest c = getAndRemoveOldest c"

definition Remove_removed :: "'v LRU \<Rightarrow> key \<Rightarrow> bool \<times> 'v LRU" where
  "Remove_removed c k = removeIfExist c k"

definition NewARC :: "int \<Rightarrow> error + 'v ARCCache" where
  "NewARC sz =
     (case NewLRU sz of
        Inl err \<Rightarrow> Inl err
      | Inr t1' \<Rightarrow>
         (case NewLRU sz of
            Inl err \<Rightarrow> Inl err
          | Inr b1' \<Rightarrow>
             (case NewLRU sz of
                Inl err \<Rightarrow> Inl err
              | Inr t2' \<Rightarrow>
                 (case NewLRU sz of
                    Inl err \<Rightarrow> Inl err
                  | Inr b2' \<Rightarrow>
                      Inr \<lparr>size_ARCCache = sz, p = 0, t1 = t1', b1 = b1',
                           t2 = t2', b2 = b2'\<rparr>))))"

definition ARCCache_Get :: "'v ARCCache \<Rightarrow> key \<Rightarrow> ('v option \<times> bool) \<times> 'v ARCCache" where
  "ARCCache_Get c k =
     (if snd (LRU_Peek (t1 c) k)
      then
        (let val = fst (LRU_Peek (t1 c) k);
             c1 = c\<lparr>t1 := LRU_Remove (t1 c) k\<rparr>
         in ((val, True), c1\<lparr>t2 := LRU_Put (t2 c1) k val\<rparr>))
      else if snd (fst (LRU_Get (t2 c) k))
      then (fst (LRU_Get (t2 c) k), c\<lparr>t2 := snd (LRU_Get (t2 c) k)\<rparr>)
      else ((None, False), c\<lparr>t2 := snd (LRU_Get (t2 c) k)\<rparr>))"

text \<open>
  \<open>replace\<close> moves the oldest entry of T1 to B1, or the oldest entry of T2 to B2. When
  the list it picks is empty, \<open>GetAndRemoveOldest\<close> reports \<open>ok = false\<close> and nothing
  is moved.
\<close>

definition replace :: "'v ARCCache \<Rightarrow> bool \<Rightarrow> 'v ARCCache" where
  "replace c b2ContainsKey =
     (if LRU_Len (t1 c) > 0
         \<and> (LRU_Len (t1 c) > p c \<or> (LRU_Len (t1 c) = p c \<and> b2ContainsKey))
      then
        (let k = fst (fst (GetAndRemoveOldest (t1 c)));
             ok = snd (snd (fst (GetAndRemoveOldest (t1 c))));
             c1 = c\<lparr>t1 := snd (GetAndRemoveOldest (t1 c))\<rparr>
         in if ok then c1\<lparr>b1 := LRU_Put (b1 c1) k None\<rparr> else c1)
      else
        (let k = fst (fst (GetAndRemoveOldest (t2 c)));
             ok = snd (snd (fst (GetAndRemoveOldest (t2 c))));
             c1 = c\<lparr>t2 := snd (GetAndRemoveOldest (t2 c))\<rparr>
         in if ok then c1\<lparr>b2 := LRU_Put (b2 c1) k None\<rparr> else c1))"

text \<open>
  Go's integer division panics on a zero divisor and otherwise truncates towards zero.
  It is the only operation of the three files that can abort a call.
\<close>

datatype panic = DivideByZero

definition go_div :: "int \<Rightarrow> int \<Rightarrow> panic + int" where
  "go_div a b =
     (if b = 0 then Inl DivideByZero else Inr (sgn a * sgn b * (\<bar>a\<bar> div \<bar>b\<bar>)))"

definition ARCCache_Put :: "'v ARCCache \<Rightarrow> key \<Rightarrow> 'v option \<Rightarrow> panic + 'v ARCCache" where
  "ARCCache_Put c k v =
     (if Contains (t1 c) k
      then
        (let c1 = c\<lparr>t1 := LRU_Remove (t1 c) k\<rparr>
         in Inr (c1\<lparr>t2 := LRU_Put (t2 c1) k v\<rparr>))
      else if Contains (t2 c) k then Inr (c\<lparr>t2 := LRU_Put (t2 c) k v\<rparr>)
      else if Contains (b1 c) k
      then
        (let b1Len = LRU_Len (b1 c);
             b2Len = LRU_Len (b2 c)
         in case (if b2Len > b1Len then go_div b2Len b1Len else Inr 1) of
              Inl e \<Rightarrow> Inl e
            | Inr delta \<Rightarrow>
               (let c1 = (if p c + delta \<ge> size_ARCCache c then c\<lparr>p := size_ARCCache c\<rparr>
                          else c\<lparr>p := p c + delta\<rparr>);
                    c2 = (if LRU_Len (t1 c1) + LRU_Len (t2 c1) \<ge> size_ARCCache c1
                          then replace c1 False else c1);
                    c3 = c2\<lparr>b1 := LRU_Remove (b1 c2) k\<rparr>
                in Inr (c3\<lparr>t2 := LRU_Put (t2 c3) k v\<rparr>)))
      else if Contains (b2 c) k
      then
        (let b1Len = LRU_Len (b1 c);
             b2Len = LRU_Len (b2 c)
         in case (if b1Len > b2Len then go_div b1Len b2Len else Inr 1) of
              Inl e \<Rightarrow> Inl e
            | Inr delta \<Rightarrow>
               (let c1 = (if delta \<ge> p c then c\<lparr>p := 0\<rparr> else c\<lparr>p := p c - delta\<rparr>);
                    c2 = (if LRU_Len (t1 c1) + LRU_Len (t2 c1) \<ge> size_ARCCache c1
                          then replace c1 True else c1);
                    c3 = c2\<lparr>b2 := LRU_Remove (b2 c2) k\<rparr>
                in Inr (c3\<lparr>t2 := LRU_Put (t2 c3) k v\<rparr>)))
      else
        (let c1 = (if LRU_Len (t1 c) + LRU_Len (t2 c) \<ge> size_ARCCache c
                   then replace c False else c);
             c2 = (if LRU_Len (b1 c1) > size_ARCCache c1 - p c1
                   then c1\<lparr>b1 := RemoveOldest (b1 c1)\<rparr> else c1);
             c3 = (if LRU_Len (b2 c2) > p c2
                   then c2\<lparr>b2 := RemoveOldest (b2 c2)\<rparr> else c2)
         in Inr (c3\<lparr>t1 := LRU_Put (t1 c3) k v\<rparr>)))"

definition ARCCache_Peek :: "'v ARCCache \<Rightarrow> key \<Rightarrow> 'v option \<times> bool" where
  "ARCCache_Peek c k =
     (if snd (LRU_Peek (t1 c) k) then LRU_Peek (t1 c) k else LRU_Peek (t2 c) k)"

definition ARCCache_Remove :: "'v ARCCache \<Rightarrow> key \<Rightarrow> 'v ARCCache" where
  "ARCCache_Remove c k =
     (if fst (Remove_removed (t1 c) k) then c\<lparr>t1 := snd (Remove_removed (t1 c) k)\<rparr>
      else if fst (Remove_removed (t2 c) k) then c\<lparr>t2 := snd (Remove_removed (t2 c) k)\<rparr>
      else if fst (Remove_removed (b1 c) k) then c\<lparr>b1 := snd (Remove_removed (b1 c) k)\<rparr>
      else if fst (Remove_removed (b2 c) k) then c\<lparr>b2 := snd (Remove_removed (b2 c) k)\<rparr>
      else c)"

definition ARCCache_Purge :: "'v ARCCache \<Rightarrow> 'v ARCCache" where
  "ARCCache_Purge c =
     c\<lparr>t1 := LRU_Purge (t1 c), t2 := LRU_Purge (t2 c),
       b1 := LRU_Purge (b1 c), b2 := LRU_Purge (b2 c)\<rparr>"

definition ARCCache_Len :: "'v ARCCache \<Rightarrow> int" where
  "ARCCache_Len c = LRU_Len (t1 c) + LRU_Len (t2 c)"

definition ARCCache_Items :: "'v ARCCache \<Rightarrow> 'v Item list" where
  "ARCCache_Items c = LRU_Items (t1 c) @ LRU_Items (t2 c)"

text \<open>A sequence of calls stops at the first panic.\<close>

fun ARCCache_call :: "'v ARCCache \<Rightarrow> 'v cache_op \<Rightarrow> panic + 'v ARCCache" where
  "ARCCache_call c (Op_Get k) = Inr (snd (ARCCache_Get c k))"
| "ARCCache_call c (Op_Put k v) = ARCCache_Put c k v"
| "ARCCache_call c (Op_Peek k) = Inr c"
| "ARCCache_call c (Op_Remove k) = Inr (ARCCache_Remove c k)"
| "ARCCache_call c Op_Purge = Inr (ARCCache_Purge c)"
| "ARCCache_call c Op_Items = Inr c"
| "ARCCache_call c Op_Len = Inr c"

fun ARCCache_calls :: "'v ARCCache \<Rightarrow> 'v cache_op list \<Rightarrow> panic + 'v ARCCache" where
  "ARCCache_calls c [] = Inr c"
| "ARCCache_calls c (x # xs) =
     (case ARCCache_call c x of Inl e \<Rightarrow> Inl e | Inr c' \<Rightarrow> ARCCache_calls c' xs)"

section \<open>Example states\<close>

text \<open>
  The 2Q cache that \<open>NewTwoQueueCache(4)\<close> builds, and the state it reaches by
  \<open>Put(1, 10)\<close>, \<open>Put(2, 20)\<close>, \<open>Put(3, 30)\<close>, \<open>Put(4, 40)\<close>, \<open>Get(2)\<close>, \<open>Get(3)\<close>,
  \<open>Get(4)\<close>: the cache is full and \<open>recent\<close> holds exactly \<open>recentSize\<close> entries.
\<close>

definition example_2Q_new :: "nat TwoQueueCache" where
  "example_2Q_new =
     \<lparr>size_TwoQueueCache = 4, recentSize = 1,
      recent = \<lparr>size_LRU = 4, evictList = []\<rparr>,
      frequent = \<lparr>size_LRU = 4, evictList = []\<rparr>,
      evict = \<lparr>size_LRU = 2, evictList = []\<rparr>\<rparr>"

definition example_2Q_boundary :: "nat TwoQueueCache" where
  "example_2Q_boundary =
     \<lparr>size_TwoQueueCache = 4, recentSize = 1,
      recent = \<lparr>size_LRU = 4, evictList = [\<lparr>Key = 1, Value = Some 10\<rparr>]\<rparr>,
      frequent = \<lparr>size_LRU = 4, evictList =
         [\<lparr>Key = 4, Value = Some 40\<rparr>, \<lparr>Key = 3, Value = Some 30\<rparr>,
          \<lparr>Key = 2, Value = Some 20\<rparr>]\<rparr>,
      evict = \<lparr>size_LRU = 2, evictList = []\<rparr>\<rparr>"

text \<open>
  The state reached from \<open>example_2Q_boundary\<close> by \<open>Put(5, 50)\<close>: key 1 has moved from
  \<open>recent\<close> to the ghost list.
\<close>

definition example_2Q_ghost :: "nat TwoQueueCache" where
  "example_2Q_ghost =
     \<lparr>size_TwoQueueCache = 4, recentSize = 1,
      recent = \<lparr>size_LRU = 4, evictList = [\<lparr>Key = 5, Value = Some 50\<rparr>]\<rparr>,
      frequent = \<lparr>size_LRU = 4, evictList =
         [\<lparr>Key = 4, Value = Some 40\<rparr>, \<lparr>Key = 3, Value = Some 30\<rparr>,
          \<lparr>Key = 2, Value = Some 20\<rparr>]\<rparr>,
      evict = \<lparr>size_LRU = 2, evictList = [\<lparr>Key = 1, Value = None\<rparr>]\<rparr>\<rparr>"

text \<open>
  The ARC cache that \<open>NewARC(2)\<close> builds; the state it reaches by \<open>Put(1, 10)\<close>,
  \<open>Get(1)\<close>, \<open>Put(2, 20)\<close>, \<open>Put(3, 30)\<close>, where B1 holds key 2; and the state after a
  further \<open>Put(2, 21)\<close>, where B2 holds key 1.
\<close>

definition example_ARC_new :: "nat ARCCache" where
  "example_ARC_new =
     \<lparr>size_ARCCache = 2, p = 0,
      t1 = \<lparr>size_LRU = 2, evictList = []\<rparr>,
      b1 = \<lparr>size_LRU = 2, evictList = []\<rparr>,
      t2 = \<lparr>size_LRU = 2, evictList = []\<rparr>,
      b2 = \<lparr>size_LRU = 2, evictList = []\<rparr>\<rparr>"

definition example_ARC_b1 :: "nat ARCCache" where
  "example_ARC_b1 =
     \<lparr>size_ARCCache = 2, p = 0,
      t1 = \<lparr>size_LRU = 2, evictList = [\<lparr>Key = 3, Value = Some 30\<rparr>]\<rparr>,
      b1 = \<lparr>size_LRU = 2, evictList = [\<lparr>Key = 2, Value = None\<rparr>]\<rparr>,
      t2 = \<lparr>size_LRU = 2, evictList = [\<lparr>Key = 1, Value = Some 10\<rparr>]\<rparr>,
      b2 = \<lparr>size_LRU = 2, evictList = []\<rparr>\<rparr>"

definition example_ARC_b2 :: "nat ARCCache" where
  "example_ARC_b2 =
     \<lparr>size_ARCCache = 2, p = 1,
      t1 = \<lparr>size_LRU = 2, evictList = [\<lparr>Key = 3, Value = Some 30\<rparr>]\<rparr>,
      b1 = \<lparr>size_LRU = 2, evictList = []\<rparr>,
      t2 = \<lparr>size_LRU = 2, evictList = [\<lparr>Key = 2, Value = Some 21\<rparr>]\<rparr>,
      b2 = \<lparr>size_LRU = 2, evictList = [\<lparr>Key = 1, Value = None\<rparr>]\<rparr>\<rparr>"

section \<open>Invariants\<close>

text \<open>
  What every 2Q cache built by \<open>NewTwoQueueCache\<close> satisfies after any sequence of calls:
  the capacities are the ones the constructor set, \<open>recentSize\<close> is below \<open>size\<close>,
  \<open>recent\<close> and \<open>frequent\<close> together hold at most \<open>size\<close> entries, and no key occurs
  twice in the three lists.
\<close>

definition TwoQueueCache_inv :: "'v TwoQueueCache \<Rightarrow> bool" where
  "TwoQueueCache_inv c \<longleftrightarrow>
     0 < size_TwoQueueCache c
     \<and> recentSize c < size_TwoQueueCache c
     \<and> size_LRU (recent c) = size_TwoQueueCache c
     \<and> size_LRU (frequent c) = size_TwoQueueCache c
     \<and> 0 < size_LRU (evict c)
     \<and> LRU_Len (recent c) + LRU_Len (frequent c) \<le> size_TwoQueueCache c
     \<and> distinct (LRU_keys (recent c))
     \<and> distinct (LRU_keys (frequent c))
     \<and> distinct (LRU_keys (evict c))
     \<and> set (LRU_keys (recent c)) \<inter> set (LRU_keys (frequent c)) = {}
     \<and> set (LRU_keys (evict c)) \<inter> set (LRU_keys (recent c)) = {}
     \<and> set (LRU_keys (evict c)) \<inter> set (LRU_keys (frequent c)) = {}"

text \<open>
  What every ARC cache built by \<open>NewARC\<close> satisfies after any sequence of calls: \<open>p\<close>
  lies in \<open>[0, size]\<close> and no key occurs twice in T1, T2, B1 and B2.
\<close>

definition ARCCache_inv :: "'v ARCCache \<Rightarrow> bool" where
  "ARCCache_inv c \<longleftrightarrow>
     0 < size_ARCCache c \<and> 0 \<le> p c \<and> p c \<le> size_ARCCache c
     \<and> distinct (LRU_keys (t1 c) @ LRU_keys (t2 c) @ LRU_keys (b1 c) @ LRU_keys (b2 c))"

section \<open>Facts about the LRU container\<close>

lemma length_list_Remove_le: "length (list_Remove k xs) \<le> length xs"
  by (induction xs) auto

lemma length_list_Remove_find:
  "find (\<lambda>e. Key e = k) xs = Some ele \<Longrightarrow> Suc (length (list_Remove k xs)) = length xs"
  by (induction xs) (auto split: if_splits)

lemma size_LRU_call: "size_LRU (LRU_call c x) = size_LRU c"
  by (cases x)
     (auto simp: LRU_Get_def LRU_Put_def LRU_Remove_def LRU_Purge_def removeIfExist_def
        removeOldest_def Let_def split: option.splits)

lemma LRU_Put_Len_le:
  assumes "LRU_Len c \<le> size_LRU c"
  shows "LRU_Len (LRU_Put c k v) \<le> size_LRU c"
proof (cases "items c k")
  case None
  with assms show ?thesis
    by (auto simp: LRU_Put_def LRU_Len_def removeOldest_def Let_def)
next
  case (Some ele)
  then have "Suc (length (list_Remove k (evictList c))) = length (evictList c)"
    unfolding items_def by (rule length_list_Remove_find)
  with Some assms show ?thesis
    by (simp add: LRU_Put_def LRU_Len_def)
qed

lemma LRU_Get_Len: "LRU_Len (snd (LRU_Get c k)) = LRU_Len c"
proof (cases "items c k")
  case None
  then show ?thesis by (simp add: LRU_Get_def)
next
  case (Some ele)
  then have "Suc (length (list_Remove k (evictList c))) = length (evictList c)"
    unfolding items_def by (rule length_list_Remove_find)
  with Some show ?thesis
    by (simp add: LRU_Get_def LRU_Len_def)
qed

lemma LRU_Remove_Len_le: "LRU_Len (LRU_Remove c k) \<le> LRU_Len c"
  using length_list_Remove_le [of k "evictList c"]
  by (auto simp: LRU_Remove_def removeIfExist_def LRU_Len_def split: option.splits)

lemma LRU_call_Len_le:
  assumes "LRU_Len c \<le> size_LRU c"
  shows "LRU_Len (LRU_call c x) \<le> size_LRU c"
proof (cases x)
  case (Op_Get k)
  with assms show ?thesis by (simp add: LRU_Get_Len)
next
  case (Op_Put k v)
  with assms show ?thesis by (simp add: LRU_Put_Len_le)
next
  case (Op_Remove k)
  with assms LRU_Remove_Len_le [of c k] show ?thesis by simp
next
  case Op_Purge
  with assms show ?thesis by (simp add: LRU_Purge_def LRU_Len_def)
qed (use assms in simp_all)

lemma LRU_calls_inv:
  assumes "LRU_Len c \<le> size_LRU c"
  shows "size_LRU (LRU_calls c ops) = size_LRU c
         \<and> LRU_Len (LRU_calls c ops) \<le> size_LRU c"
  using assms unfolding LRU_calls_def
proof (induction ops arbitrary: c)
  case Nil
  then show ?case by simp
next
  case (Cons x xs)
  have "LRU_Len (LRU_call c x) \<le> size_LRU (LRU_call c x)"
    using Cons.prems by (simp add: LRU_call_Len_le size_LRU_call)
  from Cons.IH [OF this] show ?case
    by (simp add: size_LRU_call)
qed

lemma LRU_Put_new_full:
  assumes "\<not> contains c k" and "LRU_Len c = size_LRU c"
  shows "LRU_Put c k v = c\<lparr>evictList := butlast (\<lparr>Key = k, Value = v\<rparr> # evictList c)\<rparr>"
  using assms
  by (simp add: LRU_Put_def contains_def LRU_Len_def removeOldest_def Let_def)

subsection \<open>Keys of a container\<close>
lemma find_Key_None: "find (\<lambda>e. Key e = k) xs = None \<longleftrightarrow> k \<notin> Key ` set xs"
  by (induction xs) auto

lemma find_Key_Some: "find (\<lambda>e. Key e = k) xs = Some ele \<Longrightarrow> Key ele = k \<and> ele \<in> set xs"
  by (induction xs) (auto split: if_splits)

lemma contains_keys: "contains c k \<longleftrightarrow> k \<in> set (LRU_keys c)"
  by (simp add: contains_def items_def LRU_keys_def find_Key_None)

lemma map_Key_list_Remove: "map Key (list_Remove k xs) = remove1 k (map Key xs)"
  by (induction xs) auto

lemma distinct_butlast_last: "distinct xs \<Longrightarrow> xs \<noteq> [] \<Longrightarrow> last xs \<notin> set (butlast xs)"
  by (induction xs) (auto dest: in_set_butlastD)

lemma LRU_Len_keys: "LRU_Len c = int (length (LRU_keys c))"
  by (simp add: LRU_Len_def LRU_keys_def)

lemma keys_LRU_Put:
  "LRU_keys (LRU_Put c k v) =
     (if k \<in> set (LRU_keys c) then k # remove1 k (LRU_keys c)
      else if size_LRU c < int (length (LRU_keys c)) + 1 then butlast (k # LRU_keys c)
      else k # LRU_keys c)"
proof (cases "items c k")
  case None
  then have "k \<notin> set (LRU_keys c)"
    by (simp add: items_def LRU_keys_def find_Key_None)
  with None show ?thesis
    by (simp add: LRU_Put_def LRU_keys_def LRU_Len_def removeOldest_def Let_def map_butlast)
next
  case (Some ele)
  then have "Key ele = k" and "k \<in> set (LRU_keys c)"
    by (auto simp: items_def LRU_keys_def dest: find_Key_Some)
  with Some show ?thesis
    by (simp add: LRU_Put_def LRU_keys_def map_Key_list_Remove)
qed

lemma keys_LRU_Get:
  "LRU_keys (snd (LRU_Get c k)) =
     (if k \<in> set (LRU_keys c) then k # remove1 k (LRU_keys c) else LRU_keys c)"
proof (cases "items c k")
  case None
  then have "k \<notin> set (LRU_keys c)"
    by (simp add: items_def LRU_keys_def find_Key_None)
  with None show ?thesis by (simp add: LRU_Get_def)
next
  case (Some ele)
  then have "Key ele = k" and "k \<in> set (LRU_keys c)"
    by (auto simp: items_def LRU_keys_def dest: find_Key_Some)
  with Some show ?thesis
    by (simp add: LRU_Get_def LRU_keys_def map_Key_list_Remove)
qed

lemma found_LRU_Get: "snd (fst (LRU_Get c k)) = contains c k"
  by (simp add: LRU_Get_def contains_def split: option.splits)

lemma found_LRU_Peek: "snd (LRU_Peek c k) = contains c k"
  by (simp add: LRU_Peek_def contains_def split: option.splits)

lemma keys_removeIfExist: "LRU_keys (snd (removeIfExist c k)) = remove1 k (LRU_keys c)"
proof (cases "items c k")
  case None
  then have "k \<notin> set (LRU_keys c)"
    by (simp add: items_def LRU_keys_def find_Key_None)
  with None show ?thesis by (simp add: removeIfExist_def remove1_idem)
next
  case (Some ele)
  then show ?thesis by (simp add: removeIfExist_def LRU_keys_def map_Key_list_Remove)
qed

lemma found_removeIfExist: "fst (removeIfExist c k) = contains c k"
  by (simp add: removeIfExist_def contains_def split: option.splits)

lemma keys_LRU_Remove: "LRU_keys (LRU_Remove c k) = remove1 k (LRU_keys c)"
  by (simp add: LRU_Remove_def keys_removeIfExist)

lemma keys_removeOldest: "LRU_keys (removeOldest c) = butlast (LRU_keys c)"
  by (simp add: removeOldest_def LRU_keys_def map_butlast)

lemma keys_getAndRemoveOldest:
  "LRU_keys (snd (getAndRemoveOldest c)) = butlast (LRU_keys c)"
  by (simp add: getAndRemoveOldest_def LRU_keys_def map_butlast)

lemma key_getAndRemoveOldest:
  "LRU_keys c \<noteq> [] \<Longrightarrow> fst (fst (getAndRemoveOldest c)) = last (LRU_keys c)"
  by (simp add: getAndRemoveOldest_def LRU_keys_def last_map)

lemma ok_getAndRemoveOldest:
  "snd (snd (fst (getAndRemoveOldest c))) = (LRU_keys c \<noteq> [])"
  by (simp add: getAndRemoveOldest_def LRU_keys_def)

lemma keys_LRU_Purge: "LRU_keys (LRU_Purge c) = []"
  by (simp add: LRU_Purge_def LRU_keys_def)

lemma size_LRU_Put: "size_LRU (LRU_Put c k v) = size_LRU c"
  by (simp add: LRU_Put_def removeOldest_def Let_def split: option.splits)

lemma size_LRU_Get: "size_LRU (snd (LRU_Get c k)) = size_LRU c"
  by (simp add: LRU_Get_def split: option.splits)

lemma size_removeIfExist: "size_LRU (snd (removeIfExist c k)) = size_LRU c"
  by (simp add: removeIfExist_def split: option.splits)

lemma size_LRU_Remove: "size_LRU (LRU_Remove c k) = size_LRU c"
  by (simp add: LRU_Remove_def size_removeIfExist)

lemma size_removeOldest: "size_LRU (removeOldest c) = size_LRU c"
  by (simp add: removeOldest_def)

lemma size_getAndRemoveOldest: "size_LRU (snd (getAndRemoveOldest c)) = size_LRU c"
  by (simp add: getAndRemoveOldest_def)

lemma size_LRU_Purge: "size_LRU (LRU_Purge c) = size_LRU c"
  by (simp add: LRU_Purge_def)

lemma distinct_keys_LRU_call:
  assumes "distinct (LRU_keys c)"
  shows "distinct (LRU_keys (LRU_call c x))"
proof (cases x)
  case (Op_Get k)
  with assms show ?thesis by (simp add: keys_LRU_Get)
next
  case (Op_Put k v)
  have "distinct (k # LRU_keys c)" if "k \<notin> set (LRU_keys c)"
    using that assms by simp
  then have "distinct (butlast (k # LRU_keys c))" if "k \<notin> set (LRU_keys c)"
    using that by (blast intro: distinct_butlast)
  with Op_Put assms show ?thesis by (simp add: keys_LRU_Put)
next
  case (Op_Remove k)
  with assms show ?thesis by (simp add: keys_LRU_Remove)
next
  case Op_Purge
  then show ?thesis by (simp add: keys_LRU_Purge)
qed (use assms in simp_all)

lemma distinct_keys_LRU_calls:
  "distinct (LRU_keys c) \<Longrightarrow> distinct (LRU_keys (LRU_calls c ops))"
  unfolding LRU_calls_def
  by (induction ops arbitrary: c) (simp_all add: distinct_keys_LRU_call)

section \<open>Claims about the LRU container\<close>

text \<open>
  C4. A container built by \<open>NewLRU n\<close> holds at most \<open>n\<close> entries after any sequence of
  calls of \<open>Get\<close>, \<open>Put\<close>, \<open>Peek\<close>, \<open>Remove\<close>, \<open>Purge\<close>, \<open>Items\<close> and \<open>Len\<close>. When it
  holds exactly \<open>n\<close> entries, a \<open>Put\<close> of a key it does not contain links the new entry
  at the front and unlinks the back entry, and nothing else: the list becomes the new entry
  followed by the old list without its last element, the key of that last element is no
  longer contained, and the length is \<open>n\<close> again.
\<close>

theorem LRU_capacity_invariant:
  assumes "NewLRU n = Inr c0" and "c = LRU_calls c0 ops"
  shows "LRU_Len c \<le> n
         \<and> (\<not> contains c k \<and> LRU_Len c = n \<longrightarrow>
              evictList c \<noteq> []
              \<and> evictList (LRU_Put c k v) = \<lparr>Key = k, Value = v\<rparr> # butlast (evictList c)
              \<and> \<not> contains (LRU_Put c k v) (Key (last (evictList c)))
              \<and> LRU_Len (LRU_Put c k v) = n)"
proof -
  from assms(1) have n: "0 < n" and c0: "c0 = \<lparr>size_LRU = n, evictList = []\<rparr>"
    by (auto simp: NewLRU_def split: if_splits)
  have "LRU_Len c0 \<le> size_LRU c0"
    using n by (simp add: c0 LRU_Len_def)
  from LRU_calls_inv [OF this, of ops] have sz: "size_LRU c = n" and le: "LRU_Len c \<le> n"
    by (simp_all add: assms(2) c0)
  have "distinct (LRU_keys c0)" by (simp add: c0 LRU_keys_def)
  then have dist: "distinct (LRU_keys c)"
    unfolding assms(2) by (rule distinct_keys_LRU_calls)
  have full: "evictList c \<noteq> []
      \<and> evictList (LRU_Put c k v) = \<lparr>Key = k, Value = v\<rparr> # butlast (evictList c)
      \<and> \<not> contains (LRU_Put c k v) (Key (last (evictList c)))
      \<and> LRU_Len (LRU_Put c k v) = n"
    if new: "\<not> contains c k" and len: "LRU_Len c = n"
  proof -
    from len n have ne: "evictList c \<noteq> []" by (auto simp: LRU_Len_def)
    then have kne: "LRU_keys c \<noteq> []" by (simp add: LRU_keys_def)
    from len sz have "LRU_Len c = size_LRU c" by simp
    from LRU_Put_new_full [OF new this, of v] ne
    have ev: "evictList (LRU_Put c k v) = \<lparr>Key = k, Value = v\<rparr> # butlast (evictList c)"
      by simp
    have lastk: "Key (last (evictList c)) = last (LRU_keys c)"
      using ne by (simp add: LRU_keys_def last_map)
    from new have "k \<noteq> last (LRU_keys c)"
      using kne by (auto simp: contains_keys)
    moreover have "last (LRU_keys c) \<notin> set (butlast (LRU_keys c))"
      using dist kne by (rule distinct_butlast_last)
    ultimately have gone: "\<not> contains (LRU_Put c k v) (Key (last (evictList c)))"
      by (simp add: contains_keys LRU_keys_def ev lastk map_butlast)
    have "LRU_Len (LRU_Put c k v) = n"
      using ne len by (simp add: LRU_Len_def ev)
    with ne ev gone show ?thesis by simp
  qed
  from le full show ?thesis by blast
qed

theorem LRU_capacity_invariant_witness:
  "NewLRU 2 = Inr (\<lparr>size_LRU = 2, evictList = []\<rparr> :: nat LRU)
   \<and> LRU_calls (\<lparr>size_LRU = 2, evictList = []\<rparr> :: nat LRU) [Op_Put 1 (Some 10), Op_Put 2 (Some 20)]
       = \<lparr>size_LRU = 2, evictList = [\<lparr>Key = 2, Value = Some 20\<rparr>, \<lparr>Key = 1, Value = Some 10\<rparr>]\<rparr>
   \<and> evictList (LRU_Put (\<lparr>size_LRU = 2,
          evictList = [\<lparr>Key = 2, Value = Some 20\<rparr>, \<lparr>Key = 1, Value = Some 10\<rparr>]\<rparr> :: nat LRU) 3 (Some 30))
       = [\<lparr>Key = 3, Value = Some 30\<rparr>, \<lparr>Key = 2, Value = Some 20\<rparr>]
   \<and> \<not> contains (LRU_Put (\<lparr>size_LRU = 2,
          evictList = [\<lparr>Key = 2, Value = Some 20\<rparr>, \<lparr>Key = 1, Value = Some 10\<rparr>]\<rparr> :: nat LRU) 3 (Some 30)) 1"
proof -
  let ?init = "\<lparr>size_LRU = 2, evictList = []\<rparr> :: nat LRU"
  let ?ops = "[Op_Put 1 (Some 10), Op_Put 2 (Some 20)] :: nat cache_op list"
  let ?c = "\<lparr>size_LRU = 2,
     evictList = [\<lparr>Key = 2, Value = Some 20\<rparr>, \<lparr>Key = 1, Value = Some 10\<rparr>]\<rparr> :: nat LRU"
  have new: "NewLRU 2 = Inr ?init" by (simp add: NewLRU_def)
  have run: "?c = LRU_calls ?init ?ops"
    by (simp add: LRU_calls_def LRU_Put_def items_def LRU_Len_def removeOldest_def Let_def)
  have pre: "\<not> contains ?c 3 \<and> LRU_Len ?c = 2"
    by (simp add: contains_def items_def LRU_Len_def)
  from LRU_capacity_invariant [OF new run, of 3 "Some 30"] pre new run [symmetric]
  show ?thesis by simp
qed

text \<open>
  C7. On a container built by \<open>NewLRU 2\<close>, the calls \<open>Put(k1, v1)\<close>, \<open>Put(k2, v2)\<close>,
  \<open>Get(k1)\<close>, \<open>Put(k3, v3)\<close> with three different keys leave exactly the entries of
  \<open>k3\<close> and \<open>k1\<close>, in this order, in \<open>Items()\<close>; \<open>k2\<close> is no longer contained.
\<close>

theorem LRU_recency_scenario:
  assumes "distinct [k1, k2, k3]" and "NewLRU 2 = Inr c0"
  shows "LRU_Items (LRU_calls c0 [Op_Put k1 v1, Op_Put k2 v2, Op_Get k1, Op_Put k3 v3])
           = [\<lparr>Key = k3, Value = v3\<rparr>, \<lparr>Key = k1, Value = v1\<rparr>]
         \<and> Key ` set (LRU_Items (LRU_calls c0 [Op_Put k1 v1, Op_Put k2 v2, Op_Get k1, Op_Put k3 v3]))
           = {k1, k3}
         \<and> \<not> contains (LRU_calls c0 [Op_Put k1 v1, Op_Put k2 v2, Op_Get k1, Op_Put k3 v3]) k2"
proof -
  from assms(2) have c0: "c0 = \<lparr>size_LRU = 2, evictList = []\<rparr>"
    by (auto simp: NewLRU_def split: if_splits)
  from assms(1) have ne: "k1 \<noteq> k2" "k1 \<noteq> k3" "k2 \<noteq> k3" "k2 \<noteq> k1" "k3 \<noteq> k1" "k3 \<noteq> k2"
    by auto
  have s1: "LRU_Put c0 k1 v1 = \<lparr>size_LRU = 2, evictList = [\<lparr>Key = k1, Value = v1\<rparr>]\<rparr>"
    by (simp add: c0 LRU_Put_def items_def LRU_Len_def Let_def)
  have s2: "LRU_Put \<lparr>size_LRU = 2, evictList = [\<lparr>Key = k1, Value = v1\<rparr>]\<rparr> k2 v2
      = \<lparr>size_LRU = 2, evictList = [\<lparr>Key = k2, Value = v2\<rparr>, \<lparr>Key = k1, Value = v1\<rparr>]\<rparr>"
    using ne by (simp add: LRU_Put_def items_def LRU_Len_def Let_def)
  have s3: "snd (LRU_Get \<lparr>size_LRU = 2,
        evictList = [\<lparr>Key = k2, Value = v2\<rparr>, \<lparr>Key = k1, Value = v1\<rparr>]\<rparr> k1)
      = \<lparr>size_LRU = 2, evictList = [\<lparr>Key = k1, Value = v1\<rparr>, \<lparr>Key = k2, Value = v2\<rparr>]\<rparr>"
    using ne by (simp add: LRU_Get_def items_def)
  have s4: "LRU_Put \<lparr>size_LRU = 2,
        evictList = [\<lparr>Key = k1, Value = v1\<rparr>, \<lparr>Key = k2, Value = v2\<rparr>]\<rparr> k3 v3
      = \<lparr>size_LRU = 2, evictList = [\<lparr>Key = k3, Value = v3\<rparr>, \<lparr>Key = k1, Value = v1\<rparr>]\<rparr>"
    using ne by (simp add: LRU_Put_def items_def LRU_Len_def removeOldest_def Let_def)
  have run: "LRU_calls c0 [Op_Put k1 v1, Op_Put k2 v2, Op_Get k1, Op_Put k3 v3]
      = \<lparr>size_LRU = 2, evictList = [\<lparr>Key = k3, Value = v3\<rparr>, \<lparr>Key = k1, Value = v1\<rparr>]\<rparr>"
    by (simp add: LRU_calls_def s1 s2 s3 s4)
  show ?thesis
    using ne by (auto simp: run LRU_Items_def contains_def items_def)
qed

theorem LRU_recency_scenario_witness:
  "distinct [1 :: key, 2, 3]
   \<and> NewLRU 2 = Inr (\<lparr>size_LRU = 2, evictList = []\<rparr> :: nat LRU)
   \<and> LRU_Items (LRU_calls (\<lparr>size_LRU = 2, evictList = []\<rparr> :: nat LRU)
        [Op_Put 1 (Some 10), Op_Put 2 (Some 20), Op_Get 1, Op_Put 3 (Some 30)])
       = [\<lparr>Key = 3, Value = Some 30\<rparr>, \<lparr>Key = 1, Value = Some 10\<rparr>]"
proof -
  have d: "distinct [1 :: key, 2, 3]" by simp
  have new: "NewLRU 2 = Inr (\<lparr>size_LRU = 2, evictList = []\<rparr> :: nat LRU)"
    by (simp add: NewLRU_def)
  from LRU_recency_scenario [OF d new, of "Some 10" "Some 20" "Some 30"] d new
  show ?thesis by simp
qed

section \<open>Facts about the ARC cache\<close>

lemma Contains_Len: "Contains c k \<Longrightarrow> 0 < LRU_Len c"
  by (auto simp: Contains_def contains_keys LRU_Len_keys)

lemma ARCCache_Put_Inr: "\<exists>c'. ARCCache_Put c k v = Inr c'"
proof -
  have d1: "\<exists>d. (if LRU_Len (b2 c) > LRU_Len (b1 c)
              then go_div (LRU_Len (b2 c)) (LRU_Len (b1 c)) else Inr 1) = Inr d"
    if "Contains (b1 c) k"
    using Contains_Len [OF that] by (simp add: go_div_def)
  have d2: "\<exists>d. (if LRU_Len (b1 c) > LRU_Len (b2 c)
              then go_div (LRU_Len (b1 c)) (LRU_Len (b2 c)) else Inr 1) = Inr d"
    if "Contains (b2 c) k"
    using Contains_Len [OF that] by (simp add: go_div_def)
  show ?thesis
  proof (cases "Contains (t1 c) k \<or> Contains (t2 c) k")
    case True
    then show ?thesis by (auto simp: ARCCache_Put_def Let_def)
  next
    case nt: False
    show ?thesis
    proof (cases "Contains (b1 c) k")
      case True
      from d1 [OF True] obtain d where "(if LRU_Len (b2 c) > LRU_Len (b1 c)
              then go_div (LRU_Len (b2 c)) (LRU_Len (b1 c)) else Inr 1) = Inr d" ..
      with nt True show ?thesis
        by (simp add: ARCCache_Put_def Let_def)
    next
      case nb1: False
      show ?thesis
      proof (cases "Contains (b2 c) k")
        case True
        from d2 [OF True] obtain d where "(if LRU_Len (b1 c) > LRU_Len (b2 c)
              then go_div (LRU_Len (b1 c)) (LRU_Len (b2 c)) else Inr 1) = Inr d" ..
        with nt nb1 True show ?thesis
          by (simp add: ARCCache_Put_def Let_def)
      next
        case False
        with nt nb1 show ?thesis
          by (simp add: ARCCache_Put_def Let_def)
      qed
    qed
  qed
qed

lemma ARCCache_call_Inr: "\<exists>c'. ARCCache_call c x = Inr c'"
  by (cases x) (simp_all add: ARCCache_Put_Inr)

lemma ARCCache_calls_Inr: "\<exists>c'. ARCCache_calls c ops = Inr c'"
proof (induction ops arbitrary: c)
  case Nil
  then show ?case by simp
next
  case (Cons x xs)
  obtain c1 where "ARCCache_call c x = Inr c1"
    using ARCCache_call_Inr by blast
  with Cons.IH [of c1] show ?case by simp
qed

section \<open>Claims about the ARC cache\<close>

text \<open>
  C10. No call on a constructed cache aborts. The methods of the LRU container and of the
  2Q cache contain no operation that can panic, and their models are total functions. The
  one operation that can panic is the integer division in \<open>ARCCache.Put\<close>, which the
  model carries as the result \<open>Inl DivideByZero\<close>. In every state of the cache, for every
  key and value, \<open>Put\<close> returns normally, and so does every sequence of calls: a key
  that B1 contains makes \<open>len(B1)\<close> positive, so the divisor of \<open>len(B2) / len(B1)\<close> is
  not zero, and the same holds for B2 and \<open>len(B1) / len(B2)\<close>.
\<close>

theorem ARCCache_no_panic:
  "(\<exists>c'. ARCCache_Put c k v = Inr c')
   \<and> (\<exists>c'. ARCCache_calls c ops = Inr c')
   \<and> (Contains (b1 c) k \<longrightarrow>
        0 < LRU_Len (b1 c) \<and> (\<exists>d. go_div (LRU_Len (b2 c)) (LRU_Len (b1 c)) = Inr d))
   \<and> (Contains (b2 c) k \<longrightarrow>
        0 < LRU_Len (b2 c) \<and> (\<exists>d. go_div (LRU_Len (b1 c)) (LRU_Len (b2 c)) = Inr d))"
proof -
  have "0 < LRU_Len x \<and> (\<exists>d. go_div n (LRU_Len x) = Inr d)" if "Contains x k"
    for x :: "'a LRU" and n
    using Contains_Len [OF that] by (simp add: go_div_def)
  with ARCCache_Put_Inr [of c k v] ARCCache_calls_Inr [of c ops] show ?thesis
    by blast
qed

theorem ARCCache_no_panic_witness:
  "Contains (b1 example_ARC_b1) 2
   \<and> 0 < LRU_Len (b1 example_ARC_b1)
   \<and> (\<exists>d. go_div (LRU_Len (b2 example_ARC_b1)) (LRU_Len (b1 example_ARC_b1)) = Inr d)
   \<and> (\<exists>c'. ARCCache_Put example_ARC_b1 2 (Some 21) = Inr c')
   \<and> Contains (b2 example_ARC_b2) 1
   \<and> 0 < LRU_Len (b2 example_ARC_b2)
   \<and> (\<exists>d. go_div (LRU_Len (b1 example_ARC_b2)) (LRU_Len (b2 example_ARC_b2)) = Inr d)
   \<and> (\<exists>c'. ARCCache_calls example_ARC_b2 [Op_Put 1 (Some 11), Op_Get 3, Op_Purge] = Inr c')"
proof -
  have m1: "Contains (b1 example_ARC_b1) 2"
    by (simp add: Contains_def contains_def items_def example_ARC_b1_def)
  have m2: "Contains (b2 example_ARC_b2) 1"
    by (simp add: Contains_def contains_def items_def example_ARC_b2_def)
  from ARCCache_no_panic [of example_ARC_b1 2 "Some 21" "[]"] m1
  have a: "0 < LRU_Len (b1 example_ARC_b1)"
    "\<exists>d. go_div (LRU_Len (b2 example_ARC_b1)) (LRU_Len (b1 example_ARC_b1)) = Inr d"
    "\<exists>c'. ARCCache_Put example_ARC_b1 2 (Some 21) = Inr c'"
    by blast+
  from ARCCache_no_panic
    [of example_ARC_b2 1 "Some 11" "[Op_Put 1 (Some 11), Op_Get 3, Op_Purge]"] m2
  have b: "0 < LRU_Len (b2 example_ARC_b2)"
    "\<exists>d. go_div (LRU_Len (b1 example_ARC_b2)) (LRU_Len (b2 example_ARC_b2)) = Inr d"
    "\<exists>c'. ARCCache_calls example_ARC_b2 [Op_Put 1 (Some 11), Op_Get 3, Op_Purge] = Inr c'"
    by blast+
  from m1 m2 a b show ?thesis by blast
qed

lemmas ARC_unfold =
  ARCCache_Put_def ARCCache_Remove_def ARCCache_Get_def ARCCache_Len_def replace_def
  Contains_def RemoveOldest_def GetAndRemoveOldest_def Remove_removed_def contains_def
  items_def LRU_Put_def LRU_Remove_def LRU_Get_def LRU_Peek_def removeIfExist_def
  removeOldest_def getAndRemoveOldest_def LRU_Len_def go_div_def Let_def

lemma NewARC_1:
  "NewARC 1 = Inr \<lparr>size_ARCCache = 1, p = 0,
       t1 = \<lparr>size_LRU = 1, evictList = []\<rparr>,
       b1 = \<lparr>size_LRU = 1, evictList = []\<rparr>,
       t2 = \<lparr>size_LRU = 1, evictList = []\<rparr>,
       b2 = \<lparr>size_LRU = 1, evictList = []\<rparr>\<rparr>"
  by (simp add: NewARC_def NewLRU_def)

lemma ARC_run_1_2_1:
  "ARCCache_calls \<lparr>size_ARCCache = 1, p = 0,
       t1 = \<lparr>size_LRU = 1, evictList = []\<rparr>,
       b1 = \<lparr>size_LRU = 1, evictList = []\<rparr>,
       t2 = \<lparr>size_LRU = 1, evictList = []\<rparr>,
       b2 = \<lparr>size_LRU = 1, evictList = []\<rparr>\<rparr>
     [Op_Put 1 v1, Op_Put 2 v2, Op_Put 1 v3]
   = Inr \<lparr>size_ARCCache = 1, p = 1,
       t1 = \<lparr>size_LRU = 1, evictList = [\<lparr>Key = 2, Value = v2\<rparr>]\<rparr>,
       b1 = \<lparr>size_LRU = 1, evictList = []\<rparr>,
       t2 = \<lparr>size_LRU = 1, evictList = [\<lparr>Key = 1, Value = v3\<rparr>]\<rparr>,
       b2 = \<lparr>size_LRU = 1, evictList = []\<rparr>\<rparr>"
  by (simp add: ARC_unfold)

lemma ARC_run_1_2_1_Remove:
  "ARCCache_calls \<lparr>size_ARCCache = 1, p = 0,
       t1 = \<lparr>size_LRU = 1, evictList = []\<rparr>,
       b1 = \<lparr>size_LRU = 1, evictList = []\<rparr>,
       t2 = \<lparr>size_LRU = 1, evictList = []\<rparr>,
       b2 = \<lparr>size_LRU = 1, evictList = []\<rparr>\<rparr>
     [Op_Put 1 v1, Op_Put 2 v2, Op_Put 1 v3, Op_Remove 1]
   = Inr \<lparr>size_ARCCache = 1, p = 1,
       t1 = \<lparr>size_LRU = 1, evictList = [\<lparr>Key = 2, Value = v2\<rparr>]\<rparr>,
       b1 = \<lparr>size_LRU = 1, evictList = []\<rparr>,
       t2 = \<lparr>size_LRU = 1, evictList = []\<rparr>,
       b2 = \<lparr>size_LRU = 1, evictList = []\<rparr>\<rparr>"
  by (simp add: ARC_unfold)

text \<open>
  C1. The bound \<open>len(T1) + len(T2) \<le> size\<close> does not survive every sequence of calls.
  On the cache built by \<open>NewARC(1)\<close>, the calls \<open>Put(1)\<close>, \<open>Put(2)\<close>, \<open>Put(1)\<close> end
  with key 2 in T1 and key 1 in T2: the third call finds key 1 in B1, raises \<open>p\<close> to 1,
  and calls \<open>replace(false)\<close>, which picks T2 because \<open>len(T1) = p\<close>, finds T2 empty and
  evicts nothing. \<open>Len()\<close> is then 2 with \<open>size\<close> 1, while \<open>p\<close> is within \<open>[0, size]\<close>.
\<close>

theorem ARC_capacity_exceeded:
  "\<exists>c0 c :: nat ARCCache.
      NewARC 1 = Inr c0
    \<and> ARCCache_calls c0 [Op_Put 1 (Some 10), Op_Put 2 (Some 20), Op_Put 1 (Some 11)] = Inr c
    \<and> size_ARCCache c = 1
    \<and> ARCCache_Len c = 2
    \<and> LRU_keys (t1 c) = [2] \<and> LRU_keys (t2 c) = [1]
    \<and> 0 \<le> p c \<and> p c \<le> size_ARCCache c"
proof -
  let ?init = "\<lparr>size_ARCCache = 1, p = 0,
       t1 = \<lparr>size_LRU = 1, evictList = []\<rparr>,
       b1 = \<lparr>size_LRU = 1, evictList = []\<rparr>,
       t2 = \<lparr>size_LRU = 1, evictList = []\<rparr>,
       b2 = \<lparr>size_LRU = 1, evictList = []\<rparr>\<rparr> :: nat ARCCache"
  let ?fin = "\<lparr>size_ARCCache = 1, p = 1,
       t1 = \<lparr>size_LRU = 1, evictList = [\<lparr>Key = 2, Value = Some 20\<rparr>]\<rparr>,
       b1 = \<lparr>size_LRU = 1, evictList = []\<rparr>,
       t2 = \<lparr>size_LRU = 1, evictList = [\<lparr>Key = 1, Value = Some 11\<rparr>]\<rparr>,
       b2 = \<lparr>size_LRU = 1, evictList = []\<rparr>\<rparr> :: nat ARCCache"
  have "NewARC 1 = Inr ?init" by (rule NewARC_1)
  moreover have "ARCCache_calls ?init
      [Op_Put 1 (Some 10), Op_Put 2 (Some 20), Op_Put 1 (Some 11)] = Inr ?fin"
    by (rule ARC_run_1_2_1)
  moreover have "size_ARCCache ?fin = 1 \<and> ARCCache_Len ?fin = 2
      \<and> LRU_keys (t1 ?fin) = [2] \<and> LRU_keys (t2 ?fin) = [1]
      \<and> 0 \<le> p ?fin \<and> p ?fin \<le> size_ARCCache ?fin"
    by (simp add: ARCCache_Len_def LRU_Len_def LRU_keys_def)
  ultimately show ?thesis by blast
qed

text \<open>
  C8. A key can leave the ARC cache without a ghost entry. The cache built by \<open>NewARC(1)\<close>
  reaches, by \<open>Put(1)\<close>, \<open>Put(2)\<close>, \<open>Put(1)\<close>, \<open>Remove(1)\<close>, a state where T1 holds
  key 2 and is full, T2, B1 and B2 are empty and \<open>len(T1) = p\<close>. Key 3 is in none of the
  four lists, and \<open>len(T1) + len(T2) \<ge> size\<close>, so \<open>Put(3)\<close> calls \<open>replace(false)\<close>;
  that call changes nothing. After \<open>Put(3)\<close>, T1 holds key 3 only and key 2 is in none of
  T1, T2, B1 and B2.
\<close>

theorem ARC_silent_discard:
  "\<exists>c0 c c' :: nat ARCCache.
      NewARC 1 = Inr c0
    \<and> ARCCache_calls c0
         [Op_Put 1 (Some 10), Op_Put 2 (Some 20), Op_Put 1 (Some 11), Op_Remove 1] = Inr c
    \<and> \<not> Contains (t1 c) 3 \<and> \<not> Contains (t2 c) 3
    \<and> \<not> Contains (b1 c) 3 \<and> \<not> Contains (b2 c) 3
    \<and> size_ARCCache c \<le> LRU_Len (t1 c) + LRU_Len (t2 c)
    \<and> LRU_Len (t2 c) = 0 \<and> LRU_Len (t1 c) = p c
    \<and> replace c False = c
    \<and> Contains (t1 c) 2 \<and> LRU_Len (t1 c) = size_LRU (t1 c)
    \<and> ARCCache_Put c 3 (Some 30) = Inr c'
    \<and> LRU_keys (t1 c') = [3]
    \<and> \<not> Contains (t1 c') 2 \<and> \<not> Contains (t2 c') 2
    \<and> \<not> Contains (b1 c') 2 \<and> \<not> Contains (b2 c') 2"
proof -
  let ?init = "\<lparr>size_ARCCache = 1, p = 0,
       t1 = \<lparr>size_LRU = 1, evictList = []\<rparr>,
       b1 = \<lparr>size_LRU = 1, evictList = []\<rparr>,
       t2 = \<lparr>size_LRU = 1, evictList = []\<rparr>,
       b2 = \<lparr>size_LRU = 1, evictList = []\<rparr>\<rparr> :: nat ARCCache"
  let ?mid = "\<lparr>size_ARCCache = 1, p = 1,
       t1 = \<lparr>size_LRU = 1, evictList = [\<lparr>Key = 2, Value = Some 20\<rparr>]\<rparr>,
       b1 = \<lparr>size_LRU = 1, evictList = []\<rparr>,
       t2 = \<lparr>size_LRU = 1, evictList = []\<rparr>,
       b2 = \<lparr>size_LRU = 1, evictList = []\<rparr>\<rparr> :: nat ARCCache"
  let ?fin = "\<lparr>size_ARCCache = 1, p = 1,
       t1 = \<lparr>size_LRU = 1, evictList = [\<lparr>Key = 3, Value = Some 30\<rparr>]\<rparr>,
       b1 = \<lparr>size_LRU = 1, evictList = []\<rparr>,
       t2 = \<lparr>size_LRU = 1, evictList = []\<rparr>,
       b2 = \<lparr>size_LRU = 1, evictList = []\<rparr>\<rparr> :: nat ARCCache"
  have "NewARC 1 = Inr ?init" by (rule NewARC_1)
  moreover have "ARCCache_calls ?init
      [Op_Put 1 (Some 10), Op_Put 2 (Some 20), Op_Put 1 (Some 11), Op_Remove 1] = Inr ?mid"
    by (rule ARC_run_1_2_1_Remove)
  moreover have "\<not> Contains (t1 ?mid) 3 \<and> \<not> Contains (t2 ?mid) 3
      \<and> \<not> Contains (b1 ?mid) 3 \<and> \<not> Contains (b2 ?mid) 3"
    by (simp add: Contains_def contains_def items_def)
  moreover have "size_ARCCache ?mid \<le> LRU_Len (t1 ?mid) + LRU_Len (t2 ?mid)
      \<and> LRU_Len (t2 ?mid) = 0 \<and> LRU_Len (t1 ?mid) = p ?mid
      \<and> Contains (t1 ?mid) 2 \<and> LRU_Len (t1 ?mid) = size_LRU (t1 ?mid)"
    by (simp add: LRU_Len_def Contains_def contains_def items_def)
  moreover have "replace ?mid False = ?mid"
    by (simp add: ARC_unfold)
  moreover have "ARCCache_Put ?mid 3 (Some 30) = Inr ?fin"
    by (simp add: ARC_unfold)
  moreover have "LRU_keys (t1 ?fin) = [3]
      \<and> \<not> Contains (t1 ?fin) 2 \<and> \<not> Contains (t2 ?fin) 2
      \<and> \<not> Contains (b1 ?fin) 2 \<and> \<not> Contains (b2 ?fin) 2"
    by (simp add: LRU_keys_def Contains_def contains_def items_def)
  ultimately show ?thesis by blast
qed

section \<open>Construction\<close>

lemma f64_round_exact:
  assumes "\<bar>m\<bar> < 2 ^ 53" and "- 1074 \<le> e" and "e \<le> 971"
  shows "f64_round m e = Finite m e"
proof -
  from assms(1) have "bitlen \<bar>m\<bar> \<le> 53" by (simp add: bitlen_le_iff_power)
  with assms(2,3) show ?thesis
    by (simp add: f64_round_def f64_finite_def)
qed

lemma f64_round_carry:
  assumes "- 1075 \<le> e" and "e \<le> 970"
  shows "f64_round (2 ^ 53) e = Finite (2 ^ 52) (e + 1)"
proof -
  have "bitlen (2 ^ 53) = 54"
    using bitlen_twopow_add_eq [of 0 53] by simp
  moreover have "bitlen (2 ^ 52) = 53"
    using bitlen_twopow_add_eq [of 0 52] by simp
  ultimately show ?thesis
    using assms by (simp add: f64_round_def f64_finite_def)
qed

lemma float64_value:
  assumes "0 < n"
  shows "(float64 n = PosInf \<and> 2 ^ 64 \<le> n)
     \<or> (\<exists>M E. float64 n = Finite M E \<and> 0 < M \<and> M \<le> 2 ^ 53 \<and> 0 \<le> E \<and> E \<le> 971
         \<and> (M = 2 ^ 53 \<longrightarrow> 1 \<le> E)
         \<and> M * 2 ^ nat E \<le> 2 * n
         \<and> (2 \<le> n \<longrightarrow> 2 \<le> M * 2 ^ nat E)
         \<and> (n = 1 \<longrightarrow> M * 2 ^ nat E = 1)
         \<and> (n < 2 ^ 63 \<longrightarrow> M * 2 ^ nat E \<le> 2 ^ 63))"
proof (cases "n < 2 ^ 53")
  case True
  with assms have "float64 n = Finite n 0"
    by (simp add: float64_def f64_round_exact)
  with True assms show ?thesis by simp
next
  case False
  then have big: "2 ^ 53 \<le> n" by simp
  define k where "k = bitlen n - 53"
  define d :: int where "d = 2 ^ nat k"
  define q where "q = n div d"
  define r where "r = n mod d"
  define q' where "q' = (if d < 2 * r \<or> (2 * r = d \<and> odd q) then q + 1 else q)"
  from bitlen_bounds [OF assms]
  have lo: "2 ^ nat (bitlen n - 1) \<le> n" and hi: "n < 2 ^ nat (bitlen n)" by simp_all
  have "\<not> bitlen n \<le> 53" using big by (simp add: bitlen_le_iff_power)
  then have k1: "1 \<le> k" by (simp add: k_def)
  have dpos: "0 < d" by (simp add: d_def)
  have nk: "nat (bitlen n - 1) = 52 + nat k" "nat (bitlen n) = 53 + nat k"
    using k1 by (simp_all add: k_def)
  from lo have lo': "2 ^ 52 * d \<le> n" by (simp add: nk power_add d_def)
  from hi have hi': "n < 2 ^ 53 * d" by (simp add: nk power_add d_def)
  have split: "q * d + r = n" by (simp add: q_def r_def)
  have r0: "0 \<le> r" and rd: "r < d" using dpos by (simp_all add: r_def)
  have qlo: "2 ^ 52 \<le> q"
  proof (rule ccontr)
    assume "\<not> 2 ^ 52 \<le> q"
    then have "q + 1 \<le> 2 ^ 52" by simp
    then have "(q + 1) * d \<le> 2 ^ 52 * d" using dpos by (intro mult_right_mono) simp_all
    with split rd lo' show False by (simp add: algebra_simps)
  qed
  have qhi: "q < 2 ^ 53"
  proof (rule ccontr)
    assume "\<not> q < 2 ^ 53"
    then have "2 ^ 53 * d \<le> q * d" using dpos by (intro mult_right_mono) simp_all
    with split r0 hi' show False by simp
  qed
  have q'b: "q \<le> q'" "q' \<le> q + 1" by (simp_all add: q'_def)
  have q'pos: "0 < q'" using qlo q'b by simp
  have fl: "float64 n = f64_finite q' k"
    using assms k1 unfolding q'_def
    by (simp add: float64_def f64_round_def Let_def k_def [symmetric] d_def [symmetric]
        q_def [symmetric] r_def [symmetric])
  have bl_lo: "53 \<le> bitlen q'"
  proof -
    have "\<not> bitlen q' \<le> 52" using qlo q'b by (simp add: bitlen_le_iff_power)
    then show ?thesis by simp
  qed
  have bl_hi: "bitlen q' \<le> 54" using qhi q'b by (simp add: bitlen_le_iff_power)
  show ?thesis
  proof (cases "bitlen q' + k \<le> 1024")
    case False
    with q'pos have inf: "float64 n = PosInf" by (simp add: fl f64_finite_def)
    from False bl_hi have "64 \<le> nat (bitlen n - 1)" by (simp add: k_def)
    then have "(2::int) ^ 64 \<le> 2 ^ nat (bitlen n - 1)"
      by (intro power_increasing) simp_all
    with lo have "2 ^ 64 \<le> n" by simp
    with inf show ?thesis by simp
  next
    case True
    with q'pos have fin: "float64 n = Finite q' k" by (simp add: fl f64_finite_def)
    from True bl_lo have k971: "k \<le> 971" by simp
    have V: "q' * 2 ^ nat k = q' * d" by (simp add: d_def)
    have d2: "2 \<le> d"
    proof -
      have "(2::int) ^ 1 \<le> 2 ^ nat k" using k1 by (intro power_increasing) simp_all
      then show ?thesis by (simp add: d_def)
    qed
    have up: "q' * d \<le> 2 * n"
    proof -
      have "q' * d \<le> (q + 1) * d" using q'b dpos by (intro mult_right_mono) simp_all
      also have "\<dots> = q * d + d" by (simp add: algebra_simps)
      also have "\<dots> \<le> n + d" using split r0 by simp
      also have "d \<le> n"
      proof -
        have "1 * d \<le> 2 ^ 52 * d" using dpos by (intro mult_right_mono) simp_all
        with lo' show ?thesis by simp
      qed
      finally show ?thesis by simp
    qed
    have ge2: "2 \<le> q' * d"
    proof -
      have "1 * 2 \<le> q' * d" using qlo q'b d2 by (intro mult_mono) simp_all
      then show ?thesis by simp
    qed
    have le63: "q' * d \<le> 2 ^ 63" if "n < 2 ^ 63"
    proof -
      from that have "bitlen n \<le> 63" by (simp add: bitlen_le_iff_power)
      then have "nat k \<le> 10" by (simp add: k_def)
      then have "d \<le> 2 ^ 10" unfolding d_def by (intro power_increasing) simp_all
      moreover have "q' \<le> 2 ^ 53" using qhi q'b by simp
      ultimately have "q' * d \<le> 2 ^ 53 * 2 ^ 10"
        using dpos qlo q'b by (intro mult_mono) simp_all
      then show ?thesis by simp
    qed
    have "0 < q'" "q' \<le> 2 ^ 53" "0 \<le> k" using qlo qhi q'b k1 by simp_all
    with fin k1 k971 up ge2 le63 big V show ?thesis
      by (intro disjI2 exI [of _ q'] exI [of _ k]) auto
  qed
qed

lemma trunc_scale:
  assumes "0 \<le> E" and "0 \<le> j"
  shows "(if 0 \<le> E - j then M * 2 ^ nat (E - j) else M div 2 ^ nat (j - E))
         = M * 2 ^ nat E div (2 ^ nat j :: int)"
proof (cases "0 \<le> E - j")
  case True
  then have "nat E = nat (E - j) + nat j" using assms by simp
  then have "(2::int) ^ nat E = 2 ^ nat (E - j) * 2 ^ nat j"
    by (simp add: power_add)
  then have "M * 2 ^ nat E div (2 ^ nat j :: int) = M * 2 ^ nat (E - j) * 2 ^ nat j div 2 ^ nat j"
    by (simp add: mult.assoc)
  also have "\<dots> = M * 2 ^ nat (E - j)" by simp
  finally show ?thesis using True by simp
next
  case False
  then have "nat j = nat E + nat (j - E)" using assms by simp
  then have "(2::int) ^ nat j = 2 ^ nat E * 2 ^ nat (j - E)"
    by (simp add: power_add)
  then have "M * 2 ^ nat E div (2 ^ nat j :: int)
      = (2 ^ nat E * M) div (2 ^ nat E * 2 ^ nat (j - E))"
    by (simp add: mult.commute)
  also have "\<dots> = M div 2 ^ nat (j - E)"
    by (rule div_mult_mult1) simp
  finally show ?thesis using False by simp
qed

lemma int_of_float64_scaled:
  assumes M: "0 < M" "M \<le> 2 ^ 53" and E: "0 \<le> E" "E \<le> 971" "M = 2 ^ 53 \<longrightarrow> 1 \<le> E"
    and j: "j = 1 \<or> j = 2"
  shows "int_of_float64 (f64_mul (Finite M E) (Finite 1 (- j)))
         = (if M * 2 ^ nat E div 2 ^ nat j < 2 ^ 63 then M * 2 ^ nat E div 2 ^ nat j
            else - (2 ^ 63))"
proof -
  let ?v = "M * 2 ^ nat E div (2 ^ nat j :: int)"
  have j0: "0 \<le> j" using j by auto
  have v0: "0 \<le> ?v" using M by (simp add: pos_imp_zdiv_nonneg_iff)
  have mul: "f64_mul (Finite M E) (Finite 1 (- j)) = f64_round M (E - j)"
    by (simp add: f64_mul_def)
  show ?thesis
  proof (cases "M < 2 ^ 53")
    case True
    have "f64_round M (E - j) = Finite M (E - j)"
      using True M E j by (intro f64_round_exact) auto
    moreover have "(if 0 \<le> E - j then M * 2 ^ nat (E - j)
        else sgn M * (\<bar>M\<bar> div 2 ^ nat (- (E - j)))) = ?v"
      using trunc_scale [OF E(1) j0, of M] M by (auto split: if_splits)
    ultimately show ?thesis
      using v0 unfolding mul by (simp add: int_of_float64_def Let_def)
  next
    case False
    with M E have M53: "M = 2 ^ 53" and E1: "1 \<le> E" by simp_all
    have "f64_round (2 ^ 53) (E - j) = Finite (2 ^ 52) (E - j + 1)"
      using E j by (intro f64_round_carry) auto
    with mul have res: "f64_mul (Finite M E) (Finite 1 (- j)) = Finite (2 ^ 52) (E - j + 1)"
      by (simp only: M53)
    have nn: "0 \<le> E - j + 1" using E1 j by auto
    have val: "(2 ^ 52 :: int) * 2 ^ nat (E - j + 1) = ?v"
    proof -
      have "0 \<le> E + 1 - j" using nn by simp
      with trunc_scale [of "E + 1" j "2 ^ 52"] E j0
      have "(2 ^ 52 :: int) * 2 ^ nat (E + 1 - j) = 2 ^ 52 * 2 ^ nat (E + 1) div 2 ^ nat j"
        by simp
      moreover have "nat (E + 1) = Suc (nat E)" using E by simp
      moreover have "E + 1 - j = E - j + 1" by simp
      ultimately show ?thesis by (simp add: M53)
    qed
    have "int_of_float64 (Finite (2 ^ 52) (E - j + 1))
        = (if (2 ^ 52 :: int) * 2 ^ nat (E - j + 1) < 2 ^ 63
           then 2 ^ 52 * 2 ^ nat (E - j + 1) else - (2 ^ 63))"
    proof -
      have "(0::int) \<le> 2 ^ 52 * 2 ^ nat (E - j + 1)" by simp
      moreover have "- (2 ^ 63) \<le> (0::int)" by simp
      ultimately have "- (2 ^ 63) \<le> (2 ^ 52 :: int) * 2 ^ nat (E - j + 1)"
        by (rule order_trans [rotated])
      with nn show ?thesis by (simp add: int_of_float64_def Let_def)
    qed
    then show ?thesis unfolding res val .
  qed
qed

lemma default_sizes:
  assumes "0 < n"
  shows "\<exists>V. 0 < V \<and> V \<le> 2 * n \<and> (2 \<le> n \<longrightarrow> 2 \<le> V) \<and> (n = 1 \<longrightarrow> V = 1)
     \<and> (n < 2 ^ 63 \<longrightarrow> V \<le> 2 ^ 63)
     \<and> int_of_float64 (f64_mul (float64 n) defaultRecentRatio)
         = (if V div 4 < 2 ^ 63 then V div 4 else - (2 ^ 63))
     \<and> int_of_float64 (f64_mul (float64 n) defaultGhostRatio)
         = (if V div 2 < 2 ^ 63 then V div 2 else - (2 ^ 63))"
proof -
  from float64_value [OF assms] consider
    (inf) "float64 n = PosInf" "2 ^ 64 \<le> n"
    | (fin) M E where "float64 n = Finite M E" "0 < M" "M \<le> 2 ^ 53"
      "0 \<le> E" "E \<le> 971" "M = 2 ^ 53 \<longrightarrow> 1 \<le> E"
      "M * 2 ^ nat E \<le> 2 * n" "2 \<le> n \<longrightarrow> 2 \<le> M * 2 ^ nat E"
      "n = 1 \<longrightarrow> M * 2 ^ nat E = 1" "n < 2 ^ 63 \<longrightarrow> M * 2 ^ nat E \<le> 2 ^ 63"
    by blast
  then show ?thesis
  proof cases
    case inf
    have a: "int_of_float64 (f64_mul (float64 n) defaultRecentRatio) = - (2 ^ 63)"
      and b: "int_of_float64 (f64_mul (float64 n) defaultGhostRatio) = - (2 ^ 63)"
      by (simp_all add: inf(1) f64_mul_def f64_sign_def int_of_float64_def
          defaultRecentRatio_def defaultGhostRatio_def)
    from inf(2) have "\<not> 2 * n div 4 < 2 ^ 63" "\<not> 2 * n div 2 < 2 ^ 63" by simp_all
    with a b inf(2) show ?thesis
      by (intro exI [of _ "2 * n"]) simp
  next
    case fin
    note fl = fin(1) and M = fin(2,3) and E = fin(4,5,6) and V = fin(7-10)
    have pos: "0 < M * 2 ^ nat E" using M by simp
    have a: "int_of_float64 (f64_mul (float64 n) defaultRecentRatio)
        = (if M * 2 ^ nat E div 4 < 2 ^ 63 then M * 2 ^ nat E div 4 else - (2 ^ 63))"
      using int_of_float64_scaled [OF M E, of 2]
      by (simp add: fl defaultRecentRatio_def)
    have b: "int_of_float64 (f64_mul (float64 n) defaultGhostRatio)
        = (if M * 2 ^ nat E div 2 < 2 ^ 63 then M * 2 ^ nat E div 2 else - (2 ^ 63))"
      using int_of_float64_scaled [OF M E, of 1]
      by (simp add: fl defaultGhostRatio_def)
    from pos V a b show ?thesis by blast
  qed
qed

lemma NewLRU_Inr_iff: "(\<exists>c :: 'v LRU. NewLRU n = Inr c) \<longleftrightarrow> 0 < n"
  by (auto simp: NewLRU_def)

lemma NewARC_Inr_iff: "(\<exists>c :: 'v ARCCache. NewARC n = Inr c) \<longleftrightarrow> 0 < n"
  by (auto simp: NewARC_def NewLRU_def)

lemma newTowQueueParams_Inr_iff:
  "(\<exists>c :: 'v TwoQueueCache. newTowQueueParams n r g = Inr c) \<longleftrightarrow>
     0 < n
     \<and> \<not> f64_less r (Finite 0 0) \<and> \<not> f64_less (Finite 1 0) r
     \<and> \<not> f64_less g (Finite 0 0) \<and> \<not> f64_less (Finite 1 0) g
     \<and> 0 < int_of_float64 (f64_mul (float64 n) g)"
  by (auto simp: newTowQueueParams_def NewLRU_def Let_def)

lemma default_ratios_in_range:
  "\<not> f64_less defaultRecentRatio (Finite 0 0)" "\<not> f64_less (Finite 1 0) defaultRecentRatio"
  "\<not> f64_less defaultGhostRatio (Finite 0 0)" "\<not> f64_less (Finite 1 0) defaultGhostRatio"
  by (simp_all add: defaultRecentRatio_def defaultGhostRatio_def)

lemma NewTwoQueueCache_Inr_iff:
  assumes "n < 2 ^ 63"
  shows "(\<exists>c :: 'v TwoQueueCache. NewTwoQueueCache n = Inr c) \<longleftrightarrow> 2 \<le> n"
proof -
  have "0 < int_of_float64 (f64_mul (float64 n) defaultGhostRatio) \<longleftrightarrow> 2 \<le> n"
    if n: "0 < n"
  proof -
    from default_sizes [OF n] obtain V where V: "0 < V" "2 \<le> n \<longrightarrow> 2 \<le> V"
      "n = 1 \<longrightarrow> V = 1" "n < 2 ^ 63 \<longrightarrow> V \<le> 2 ^ 63"
      and es: "int_of_float64 (f64_mul (float64 n) defaultGhostRatio)
         = (if V div 2 < 2 ^ 63 then V div 2 else - (2 ^ 63))"
      by blast
    from V(4) assms have "V div 2 < 2 ^ 63" by simp
    with es have es': "int_of_float64 (f64_mul (float64 n) defaultGhostRatio) = V div 2"
      by simp
    show ?thesis
    proof (cases "2 \<le> n")
      case True
      with V(2) have "0 < V div 2" by simp
      with True show ?thesis by (simp add: es')
    next
      case False
      with n V(3) have "V = 1" by simp
      with False show ?thesis by (simp add: es')
    qed
  qed
  then show ?thesis
    unfolding NewTwoQueueCache_def newTowQueueParams_Inr_iff
    using default_ratios_in_range by auto
qed

lemma NewTwoQueueCache_1:
  "NewTwoQueueCache 1 = Inl (Error ''must provide a positive size'')"
  by (simp add: NewTwoQueueCache_def newTowQueueParams_def defaultRecentRatio_def
      defaultGhostRatio_def float64_def f64_mul_def f64_round_exact int_of_float64_def
      NewLRU_def Let_def)

text \<open>
  Three constructions with other ratios. The doubles nearest to \<open>1/3\<close>, \<open>0.3\<close> and \<open>0.7\<close>
  are \<open>6004799503160661 * 2^-54\<close>, \<open>5404319552844595 * 2^-54\<close> and
  \<open>3152519739159347 * 2^-52\<close>. The products \<open>3 * (1/3)\<close>, \<open>10 * 0.3\<close> and \<open>10 * 0.7\<close>
  round to \<open>1\<close>, \<open>3\<close> and \<open>7\<close>, and \<open>float64\<close> of the largest \<open>int\<close> is \<open>2^63\<close>, which
  \<open>int\<close> cannot hold. A NaN compares neither below \<open>0.0\<close> nor above \<open>1.0\<close>: as the
  recent ratio it is accepted and gives the recent size \<open>-2^63\<close>, as the ghost ratio it
  gives the ghost capacity \<open>-2^63\<close>, which \<open>NewLRU\<close> refuses.
\<close>

lemma newTowQueueParams_third:
  "newTowQueueParams 3 (Finite 6004799503160661 (- 54)) (Finite 6004799503160661 (- 54))
   = Inr (\<lparr>size_TwoQueueCache = 3, recentSize = 1,
        recent = \<lparr>size_LRU = 3, evictList = []\<rparr>,
        frequent = \<lparr>size_LRU = 3, evictList = []\<rparr>,
        evict = \<lparr>size_LRU = 1, evictList = []\<rparr>\<rparr> :: nat TwoQueueCache)"
  by code_simp

lemma newTowQueueParams_tenths:
  "newTowQueueParams 10 (Finite 5404319552844595 (- 54)) (Finite 3152519739159347 (- 52))
   = Inr (\<lparr>size_TwoQueueCache = 10, recentSize = 3,
        recent = \<lparr>size_LRU = 10, evictList = []\<rparr>,
        frequent = \<lparr>size_LRU = 10, evictList = []\<rparr>,
        evict = \<lparr>size_LRU = 7, evictList = []\<rparr>\<rparr> :: nat TwoQueueCache)"
  by code_simp

lemma newTowQueueParams_largest:
  "(newTowQueueParams (2 ^ 63 - 1) (Finite 1 0) (Finite 1 0) :: error + nat TwoQueueCache)
   = Inl (Error ''must provide a positive size'')"
  by code_simp

lemma newTowQueueParams_NaN_recent:
  "newTowQueueParams 4 NaN (Finite 1 (- 1))
   = Inr (\<lparr>size_TwoQueueCache = 4, recentSize = - (2 ^ 63),
        recent = \<lparr>size_LRU = 4, evictList = []\<rparr>,
        frequent = \<lparr>size_LRU = 4, evictList = []\<rparr>,
        evict = \<lparr>size_LRU = 2, evictList = []\<rparr>\<rparr> :: nat TwoQueueCache)"
  by code_simp

lemma newTowQueueParams_NaN_ghost:
  "(newTowQueueParams 4 (Finite 1 (- 2)) NaN :: error + nat TwoQueueCache)
   = Inl (Error ''must provide a positive size'')"
  by code_simp

text \<open>
  C3. Which constructions fail, for a size \<open>n\<close> that is a 64-bit \<open>int\<close>. \<open>NewLRU\<close> and
  \<open>NewARC\<close> succeed exactly for a positive size. \<open>newTowQueueParams\<close> succeeds exactly when
  the size is positive, neither ratio compares below \<open>0.0\<close> or above \<open>1.0\<close>, and the ghost
  capacity \<open>int(float64(size) * ghostRatio)\<close> is positive: the ghost list is built by
  \<open>NewLRU\<close>, whose error is passed on. With the default ratios the ghost capacity is half
  the size rounded down, so \<open>NewTwoQueueCache\<close> succeeds exactly for a size of at least 2.
  After construction, \<open>ARCCache.Put\<close>, the one operation with a failing primitive, returns
  normally.
\<close>

theorem construction_succeeds_iff:
  assumes "- (2 ^ 63) \<le> n" and "n < 2 ^ 63"
  shows "((\<exists>c :: 'v LRU. NewLRU n = Inr c) \<longleftrightarrow> 0 < n)
   \<and> ((\<exists>c :: 'v ARCCache. NewARC n = Inr c) \<longleftrightarrow> 0 < n)
   \<and> ((\<exists>c :: 'v TwoQueueCache. newTowQueueParams n r g = Inr c) \<longleftrightarrow>
         0 < n
         \<and> \<not> f64_less r (Finite 0 0) \<and> \<not> f64_less (Finite 1 0) r
         \<and> \<not> f64_less g (Finite 0 0) \<and> \<not> f64_less (Finite 1 0) g
         \<and> 0 < int_of_float64 (f64_mul (float64 n) g))
   \<and> ((\<exists>c :: 'v TwoQueueCache. NewTwoQueueCache n = Inr c) \<longleftrightarrow> 2 \<le> n)
   \<and> (\<exists>a'. ARCCache_Put (a :: 'v ARCCache) k v = Inr a')"
  by (intro conjI NewLRU_Inr_iff NewARC_Inr_iff newTowQueueParams_Inr_iff
      NewTwoQueueCache_Inr_iff [OF assms(2)] ARCCache_Put_Inr)

theorem construction_succeeds_iff_witness:
  "- (2 ^ 63) \<le> (4::int) \<and> (4::int) < 2 ^ 63
   \<and> (\<exists>c :: nat LRU. NewLRU 4 = Inr c)
   \<and> (\<exists>c :: nat ARCCache. NewARC 4 = Inr c)
   \<and> (\<exists>c :: nat TwoQueueCache. NewTwoQueueCache 4 = Inr c)
   \<and> (\<exists>c :: nat TwoQueueCache.
         newTowQueueParams 4 (Finite 6004799503160661 (- 54)) (Finite 3152519739159347 (- 52))
           = Inr c)"
proof -
  have b: "- (2 ^ 63) \<le> (4::int)" "(4::int) < 2 ^ 63" by simp_all
  have r: "\<not> f64_less (Finite 6004799503160661 (- 54)) (Finite 0 0)"
    "\<not> f64_less (Finite 1 0) (Finite 6004799503160661 (- 54))"
    "\<not> f64_less (Finite 3152519739159347 (- 52)) (Finite 0 0)"
    "\<not> f64_less (Finite 1 0) (Finite 3152519739159347 (- 52))"
    by simp_all
  have g: "0 < int_of_float64 (f64_mul (float64 4) (Finite 3152519739159347 (- 52)))"
    by code_simp
  from construction_succeeds_iff [OF b, where ?'v = nat,
      of "Finite 6004799503160661 (- 54)" "Finite 3152519739159347 (- 52)"] b r g
  show ?thesis by simp
qed

text \<open>
  The size 1 is positive and neither default ratio compares below \<open>0.0\<close> or above \<open>1.0\<close>,
  and \<open>NewTwoQueueCache(1)\<close> fails: the ghost capacity is \<open>int(1 * 0.5) = 0\<close>.
\<close>

theorem construction_counterexample:
  "(0::int) < 1
   \<and> \<not> f64_less defaultRecentRatio (Finite 0 0) \<and> \<not> f64_less (Finite 1 0) defaultRecentRatio
   \<and> \<not> f64_less defaultGhostRatio (Finite 0 0) \<and> \<not> f64_less (Finite 1 0) defaultGhostRatio
   \<and> (NewTwoQueueCache 1 :: error + nat TwoQueueCache)
       = Inl (Error ''must provide a positive size'')"
  by (simp add: NewTwoQueueCache_1 default_ratios_in_range)

section \<open>Facts about the 2Q cache\<close>

lemma items_LRU_Put:
  assumes "0 < size_LRU c"
  shows "items (LRU_Put c k v) k = Some \<lparr>Key = k, Value = v\<rparr>"
proof (cases "items c k")
  case None
  show ?thesis
  proof (cases "evictList c")
    case Nil
    with None assms show ?thesis
      by (simp add: LRU_Put_def items_def LRU_Len_def removeOldest_def Let_def)
  next
    case (Cons e es)
    with None show ?thesis
      by (simp add: LRU_Put_def items_def LRU_Len_def removeOldest_def Let_def)
  qed
next
  case (Some ele)
  then have "Key ele = k"
    by (auto simp: items_def dest: find_Key_Some)
  with Some show ?thesis
    by (simp add: LRU_Put_def items_def)
qed

lemmas TQ_unfold =
  TwoQueueCache_Put_def TwoQueueCache_Get_def TwoQueueCache_Remove_def ensureSpace_def
  contains_def items_def LRU_Put_def LRU_Remove_def LRU_Get_def LRU_Peek_def
  removeIfExist_def removeOldest_def getAndRemoveOldest_def LRU_Len_def Let_def

lemma NewTwoQueueCache_4: "NewTwoQueueCache 4 = Inr example_2Q_new"
  by (simp add: NewTwoQueueCache_def newTowQueueParams_def defaultRecentRatio_def
      defaultGhostRatio_def float64_def f64_mul_def f64_round_exact int_of_float64_def
      NewLRU_def Let_def example_2Q_new_def)

lemma example_2Q_boundary_reached:
  "TwoQueueCache_calls example_2Q_new
     [Op_Put 1 (Some 10), Op_Put 2 (Some 20), Op_Put 3 (Some 30), Op_Put 4 (Some 40),
      Op_Get 2, Op_Get 3, Op_Get 4]
   = example_2Q_boundary"
  by (simp add: TwoQueueCache_calls_def TQ_unfold example_2Q_new_def example_2Q_boundary_def)

lemma example_2Q_boundary_pre:
  "LRU_Len (recent example_2Q_boundary) = recentSize example_2Q_boundary
   \<and> size_TwoQueueCache example_2Q_boundary
        \<le> LRU_Len (recent example_2Q_boundary) + LRU_Len (frequent example_2Q_boundary)
   \<and> 0 < LRU_Len (recent example_2Q_boundary)"
  by (simp add: example_2Q_boundary_def LRU_Len_def)

lemma ensureSpace_example_True:
  "ensureSpace example_2Q_boundary True
   = example_2Q_boundary\<lparr>frequent := \<lparr>size_LRU = 4, evictList =
         [\<lparr>Key = 4, Value = Some 40\<rparr>, \<lparr>Key = 3, Value = Some 30\<rparr>]\<rparr>\<rparr>"
  by (simp add: TQ_unfold example_2Q_boundary_def)

lemma ensureSpace_example_False:
  "ensureSpace example_2Q_boundary False
   = example_2Q_boundary\<lparr>recent := \<lparr>size_LRU = 4, evictList = []\<rparr>,
        evict := \<lparr>size_LRU = 2, evictList = [\<lparr>Key = 1, Value = None\<rparr>]\<rparr>\<rparr>"
  by (simp add: TQ_unfold example_2Q_boundary_def)

section \<open>Claims about the 2Q cache\<close>

text \<open>
  C2. The tie-break of \<open>ensureSpace\<close>. In a state with \<open>len(recent) = recentSize\<close>,
  \<open>len(recent) + len(frequent) \<ge> size\<close> and \<open>recent\<close> not empty, the call with
  \<open>recentEvict = false\<close> (made for a brand-new key) unlinks the oldest entry of \<open>recent\<close>,
  puts its key with a \<open>nil\<close> value into the ghost list and leaves \<open>frequent\<close> as it is; when
  the ghost list has a positive capacity, the ghost list then holds an entry for that key
  whose value is \<open>nil\<close>. The call with \<open>recentEvict = true\<close> (made when the key was found in
  the ghost list) leaves \<open>recent\<close> and the ghost list as they are and unlinks the oldest entry
  of \<open>frequent\<close>.
\<close>

theorem ensureSpace_boundary:
  assumes "LRU_Len (recent c) = recentSize c"
    and "size_TwoQueueCache c \<le> LRU_Len (recent c) + LRU_Len (frequent c)"
    and "0 < LRU_Len (recent c)"
  shows "evictList (recent (ensureSpace c False)) = butlast (evictList (recent c))
     \<and> frequent (ensureSpace c False) = frequent c
     \<and> evict (ensureSpace c False) = LRU_Put (evict c) (Key (last (evictList (recent c)))) None
     \<and> (0 < size_LRU (evict c) \<longrightarrow>
          items (evict (ensureSpace c False)) (Key (last (evictList (recent c))))
            = Some \<lparr>Key = Key (last (evictList (recent c))), Value = None\<rparr>)
     \<and> recent (ensureSpace c True) = recent c
     \<and> evict (ensureSpace c True) = evict c
     \<and> evictList (frequent (ensureSpace c True)) = butlast (evictList (frequent c))"
proof -
  from assms(3) have ne: "evictList (recent c) \<noteq> []"
    by (auto simp: LRU_Len_def)
  have f: "ensureSpace c False =
      c\<lparr>recent := snd (getAndRemoveOldest (recent c)),
        evict := LRU_Put (evict c) (fst (fst (getAndRemoveOldest (recent c)))) None\<rparr>"
    using assms by (simp add: ensureSpace_def Let_def)
  have t: "ensureSpace c True = c\<lparr>frequent := removeOldest (frequent c)\<rparr>"
    using assms by (simp add: ensureSpace_def)
  have k: "fst (fst (getAndRemoveOldest (recent c))) = Key (last (evictList (recent c)))"
    using ne by (simp add: getAndRemoveOldest_def)
  have "evictList (recent (ensureSpace c False)) = butlast (evictList (recent c))"
    unfolding f using ne by (simp add: getAndRemoveOldest_def)
  moreover have "frequent (ensureSpace c False) = frequent c"
    unfolding f by simp
  moreover have ev: "evict (ensureSpace c False)
      = LRU_Put (evict c) (Key (last (evictList (recent c)))) None"
    unfolding f k by simp
  moreover have "items (evict (ensureSpace c False)) (Key (last (evictList (recent c))))
      = Some \<lparr>Key = Key (last (evictList (recent c))), Value = None\<rparr>"
    if "0 < size_LRU (evict c)"
    unfolding ev using that by (rule items_LRU_Put)
  moreover have "recent (ensureSpace c True) = recent c" "evict (ensureSpace c True) = evict c"
    unfolding t by simp_all
  moreover have "evictList (frequent (ensureSpace c True)) = butlast (evictList (frequent c))"
    unfolding t by (simp add: removeOldest_def)
  ultimately show ?thesis by blast
qed

theorem ensureSpace_boundary_witness:
  "LRU_Len (recent example_2Q_boundary) = recentSize example_2Q_boundary
   \<and> size_TwoQueueCache example_2Q_boundary
        \<le> LRU_Len (recent example_2Q_boundary) + LRU_Len (frequent example_2Q_boundary)
   \<and> 0 < LRU_Len (recent example_2Q_boundary)
   \<and> 0 < size_LRU (evict example_2Q_boundary)
   \<and> evictList (recent (ensureSpace example_2Q_boundary False)) = []
   \<and> items (evict (ensureSpace example_2Q_boundary False)) 1 = Some \<lparr>Key = 1, Value = None\<rparr>
   \<and> evictList (frequent (ensureSpace example_2Q_boundary True))
       = [\<lparr>Key = 4, Value = Some 40\<rparr>, \<lparr>Key = 3, Value = Some 30\<rparr>]"
proof -
  have pre: "LRU_Len (recent example_2Q_boundary) = recentSize example_2Q_boundary"
    "size_TwoQueueCache example_2Q_boundary
        \<le> LRU_Len (recent example_2Q_boundary) + LRU_Len (frequent example_2Q_boundary)"
    "0 < LRU_Len (recent example_2Q_boundary)"
    using example_2Q_boundary_pre by simp_all
  have vals: "0 < size_LRU (evict example_2Q_boundary)"
    "evictList (recent example_2Q_boundary) = [\<lparr>Key = 1, Value = Some 10\<rparr>]"
    "evictList (frequent example_2Q_boundary)
       = [\<lparr>Key = 4, Value = Some 40\<rparr>, \<lparr>Key = 3, Value = Some 30\<rparr>, \<lparr>Key = 2, Value = Some 20\<rparr>]"
    by (simp_all add: example_2Q_boundary_def)
  from ensureSpace_boundary [OF pre]
  have r: "evictList (recent (ensureSpace example_2Q_boundary False))
        = butlast (evictList (recent example_2Q_boundary))"
    and g: "0 < size_LRU (evict example_2Q_boundary) \<longrightarrow>
        items (evict (ensureSpace example_2Q_boundary False))
          (Key (last (evictList (recent example_2Q_boundary))))
        = Some \<lparr>Key = Key (last (evictList (recent example_2Q_boundary))), Value = None\<rparr>"
    and f: "evictList (frequent (ensureSpace example_2Q_boundary True))
        = butlast (evictList (frequent example_2Q_boundary))"
    by blast+
  from r have r': "evictList (recent (ensureSpace example_2Q_boundary False)) = []"
    unfolding vals(2) by simp
  from g vals(1)
  have g': "items (evict (ensureSpace example_2Q_boundary False)) 1
      = Some \<lparr>Key = 1, Value = None\<rparr>"
    unfolding vals(2) by simp
  from f have f': "evictList (frequent (ensureSpace example_2Q_boundary True))
      = [\<lparr>Key = 4, Value = Some 40\<rparr>, \<lparr>Key = 3, Value = Some 30\<rparr>]"
    unfolding vals(3) by simp
  from pre vals(1) r' g' f' show ?thesis
    by blast
qed

text \<open>
  The state \<open>example_2Q_boundary\<close> is reached from \<open>NewTwoQueueCache(4)\<close> and is at the
  boundary. There the call with \<open>recentEvict = true\<close> evicts nothing from \<open>recent\<close>, puts
  nothing into the ghost list and drops key 2, the oldest of \<open>frequent\<close>; the call with
  \<open>recentEvict = false\<close> moves key 1 from \<open>recent\<close> to the ghost list and keeps
  \<open>frequent\<close>.
\<close>

theorem ensureSpace_boundary_counterexample:
  "NewTwoQueueCache 4 = Inr example_2Q_new
   \<and> TwoQueueCache_calls example_2Q_new
        [Op_Put 1 (Some 10), Op_Put 2 (Some 20), Op_Put 3 (Some 30), Op_Put 4 (Some 40),
         Op_Get 2, Op_Get 3, Op_Get 4] = example_2Q_boundary
   \<and> LRU_Len (recent example_2Q_boundary) = recentSize example_2Q_boundary
   \<and> size_TwoQueueCache example_2Q_boundary
        \<le> LRU_Len (recent example_2Q_boundary) + LRU_Len (frequent example_2Q_boundary)
   \<and> 0 < LRU_Len (recent example_2Q_boundary)
   \<and> LRU_keys (recent example_2Q_boundary) = [1]
   \<and> LRU_keys (frequent example_2Q_boundary) = [4, 3, 2]
   \<and> LRU_keys (evict example_2Q_boundary) = []
   \<and> LRU_keys (recent (ensureSpace example_2Q_boundary True)) = [1]
   \<and> LRU_keys (frequent (ensureSpace example_2Q_boundary True)) = [4, 3]
   \<and> LRU_keys (evict (ensureSpace example_2Q_boundary True)) = []
   \<and> LRU_keys (recent (ensureSpace example_2Q_boundary False)) = []
   \<and> LRU_keys (frequent (ensureSpace example_2Q_boundary False)) = [4, 3, 2]
   \<and> evictList (evict (ensureSpace example_2Q_boundary False)) = [\<lparr>Key = 1, Value = None\<rparr>]"
  unfolding ensureSpace_example_True ensureSpace_example_False
  using NewTwoQueueCache_4 example_2Q_boundary_reached example_2Q_boundary_pre
  by (simp add: LRU_keys_def example_2Q_boundary_def)

section \<open>The invariant of the 2Q cache\<close>

subsection \<open>Key-level facts about one container\<close>

lemma set_keys_LRU_Put: "set (LRU_keys (LRU_Put c k v)) \<subseteq> insert k (set (LRU_keys c))"
  by (auto simp: keys_LRU_Put dest: in_set_butlastD)

lemma distinct_keys_LRU_Put:
  "distinct (LRU_keys c) \<Longrightarrow> distinct (LRU_keys (LRU_Put c k v))"
  using distinct_keys_LRU_call [of c "Op_Put k v"] by simp

lemma keys_LRU_Put_room:
  "k \<notin> set (LRU_keys c) \<Longrightarrow> LRU_Len c < size_LRU c \<Longrightarrow>
   LRU_keys (LRU_Put c k v) = k # LRU_keys c"
  by (simp add: keys_LRU_Put LRU_Len_keys)

lemma keys_LRU_Put_present:
  "k \<in> set (LRU_keys c) \<Longrightarrow> LRU_keys (LRU_Put c k v) = k # remove1 k (LRU_keys c)"
  by (simp add: keys_LRU_Put)

lemma length_remove1_Suc: "k \<in> set xs \<Longrightarrow> Suc (length (remove1 k xs)) = length xs"
  by (induction xs) auto

lemma length_butlast_Suc: "xs \<noteq> [] \<Longrightarrow> Suc (length (butlast xs)) = length xs"
  by (cases xs rule: rev_cases) simp_all

lemma int_length_remove1:
  "k \<in> set xs \<Longrightarrow> int (length (remove1 k xs)) = int (length xs) - 1"
  using length_remove1_Suc [of k xs] by linarith

lemma int_length_butlast:
  "xs \<noteq> [] \<Longrightarrow> int (length (butlast xs)) = int (length xs) - 1"
  using length_butlast_Suc [of xs] by linarith

lemma Len_LRU_Remove_present:
  "k \<in> set (LRU_keys c) \<Longrightarrow> LRU_Len (LRU_Remove c k) = LRU_Len c - 1"
  by (simp add: LRU_Len_keys keys_LRU_Remove int_length_remove1)

lemma set_keys_LRU_Remove:
  "distinct (LRU_keys c) \<Longrightarrow> set (LRU_keys (LRU_Remove c k)) = set (LRU_keys c) - {k}"
  by (simp add: keys_LRU_Remove)

lemma distinct_keys_LRU_Remove:
  "distinct (LRU_keys c) \<Longrightarrow> distinct (LRU_keys (LRU_Remove c k))"
  by (simp add: keys_LRU_Remove)

lemma keys_LRU_Get_present:
  "k \<in> set (LRU_keys c) \<Longrightarrow> LRU_keys (snd (LRU_Get c k)) = k # remove1 k (LRU_keys c)"
  by (simp add: keys_LRU_Get)

lemma set_keys_LRU_Get: "set (LRU_keys (snd (LRU_Get c k))) = set (LRU_keys c)"
proof (cases "k \<in> set (LRU_keys c)")
  case True
  have "x \<in> set (k # remove1 k (LRU_keys c)) \<longleftrightarrow> x \<in> set (LRU_keys c)" for x
    using True by (cases "x = k") (simp_all add: in_set_remove1)
  with True show ?thesis by (auto simp: keys_LRU_Get)
next
  case False
  then show ?thesis by (simp add: keys_LRU_Get)
qed

lemma distinct_keys_LRU_Get:
  "distinct (LRU_keys c) \<Longrightarrow> distinct (LRU_keys (snd (LRU_Get c k)))"
  by (simp add: keys_LRU_Get)

lemma Len_removeOldest:
  "LRU_keys c \<noteq> [] \<Longrightarrow> LRU_Len (removeOldest c) = LRU_Len c - 1"
  by (simp add: LRU_Len_keys keys_removeOldest int_length_butlast del: length_butlast)

lemma Len_getAndRemoveOldest:
  "LRU_keys c \<noteq> [] \<Longrightarrow> LRU_Len (snd (getAndRemoveOldest c)) = LRU_Len c - 1"
  by (simp add: LRU_Len_keys keys_getAndRemoveOldest int_length_butlast del: length_butlast)

lemma set_butlast_subset: "set (butlast xs) \<subseteq> set xs"
  by (auto dest: in_set_butlastD)

lemma size_ensureSpace: "size_TwoQueueCache (ensureSpace c b) = size_TwoQueueCache c"
  by (simp add: ensureSpace_def Let_def)

lemma ensureSpace_room:
  "LRU_Len (recent c) + LRU_Len (frequent c) < size_TwoQueueCache c \<Longrightarrow> ensureSpace c b = c"
  by (simp add: ensureSpace_def)

lemma ensureSpace_recent:
  assumes "\<not> LRU_Len (recent c) + LRU_Len (frequent c) < size_TwoQueueCache c"
    and "0 < LRU_Len (recent c)"
    and "recentSize c < LRU_Len (recent c) \<or> (LRU_Len (recent c) = recentSize c \<and> \<not> b)"
  shows "ensureSpace c b =
     c\<lparr>recent := snd (getAndRemoveOldest (recent c)),
       evict := LRU_Put (evict c) (last (LRU_keys (recent c))) None\<rparr>"
proof -
  from assms(2) have "LRU_keys (recent c) \<noteq> []"
    by (auto simp: LRU_Len_keys)
  then have "fst (fst (getAndRemoveOldest (recent c))) = last (LRU_keys (recent c))"
    by (rule key_getAndRemoveOldest)
  with assms show ?thesis
    by (simp add: ensureSpace_def Let_def)
qed

lemma ensureSpace_frequent:
  assumes "\<not> LRU_Len (recent c) + LRU_Len (frequent c) < size_TwoQueueCache c"
    and "\<not> (0 < LRU_Len (recent c)
          \<and> (recentSize c < LRU_Len (recent c) \<or> (LRU_Len (recent c) = recentSize c \<and> \<not> b)))"
  shows "ensureSpace c b = c\<lparr>frequent := removeOldest (frequent c)\<rparr>"
  using assms by (auto simp: ensureSpace_def)

lemma ensureSpace_post:
  assumes inv: "TwoQueueCache_inv c"
  shows "TwoQueueCache_inv (ensureSpace c b)
     \<and> LRU_Len (recent (ensureSpace c b)) + LRU_Len (frequent (ensureSpace c b))
         < size_TwoQueueCache c
     \<and> set (LRU_keys (recent (ensureSpace c b))) \<subseteq> set (LRU_keys (recent c))
     \<and> set (LRU_keys (frequent (ensureSpace c b))) \<subseteq> set (LRU_keys (frequent c))
     \<and> set (LRU_keys (evict (ensureSpace c b)))
         \<subseteq> set (LRU_keys (evict c)) \<union> set (LRU_keys (recent c))"
proof -
  let ?rk = "LRU_keys (recent c)" and ?fk = "LRU_keys (frequent c)"
  let ?ek = "LRU_keys (evict c)"
  from inv have sz: "0 < size_TwoQueueCache c" "recentSize c < size_TwoQueueCache c"
    and szs: "size_LRU (recent c) = size_TwoQueueCache c"
      "size_LRU (frequent c) = size_TwoQueueCache c" "0 < size_LRU (evict c)"
    and tot: "LRU_Len (recent c) + LRU_Len (frequent c) \<le> size_TwoQueueCache c"
    and dist: "distinct ?rk" "distinct ?fk" "distinct ?ek"
    and disj: "set ?rk \<inter> set ?fk = {}" "set ?ek \<inter> set ?rk = {}" "set ?ek \<inter> set ?fk = {}"
    by (simp_all add: TwoQueueCache_inv_def)
  consider (room) "LRU_Len (recent c) + LRU_Len (frequent c) < size_TwoQueueCache c"
    | (rec) "\<not> LRU_Len (recent c) + LRU_Len (frequent c) < size_TwoQueueCache c"
        "0 < LRU_Len (recent c)"
        "recentSize c < LRU_Len (recent c) \<or> (LRU_Len (recent c) = recentSize c \<and> \<not> b)"
    | (freq) "\<not> LRU_Len (recent c) + LRU_Len (frequent c) < size_TwoQueueCache c"
        "\<not> (0 < LRU_Len (recent c)
          \<and> (recentSize c < LRU_Len (recent c) \<or> (LRU_Len (recent c) = recentSize c \<and> \<not> b)))"
    by blast
  then show ?thesis
  proof cases
    case room
    then have "ensureSpace c b = c" by (rule ensureSpace_room)
    with inv room show ?thesis by simp
  next
    case rec
    let ?k = "last ?rk"
    let ?R = "snd (getAndRemoveOldest (recent c))"
    let ?E = "LRU_Put (evict c) ?k None"
    have eq: "ensureSpace c b = c\<lparr>recent := ?R, evict := ?E\<rparr>"
      using rec by (rule ensureSpace_recent)
    from rec(2) have ne: "?rk \<noteq> []" by (auto simp: LRU_Len_keys)
    have kR: "LRU_keys ?R = butlast ?rk" by (rule keys_getAndRemoveOldest)
    have lenR: "LRU_Len ?R = LRU_Len (recent c) - 1"
      using ne by (rule Len_getAndRemoveOldest)
    have kin: "?k \<in> set ?rk" using ne by simp
    have knot: "?k \<notin> set (butlast ?rk)"
      using dist(1) ne by (rule distinct_butlast_last)
    have subR: "set (butlast ?rk) \<subseteq> set ?rk" by (rule set_butlast_subset)
    have subE: "set (LRU_keys ?E) \<subseteq> insert ?k (set ?ek)" by (rule set_keys_LRU_Put)
    have dE: "distinct (LRU_keys ?E)" using dist(3) by (rule distinct_keys_LRU_Put)
    have dR: "distinct (butlast ?rk)" using dist(1) by (rule distinct_butlast)
    have i1: "set (butlast ?rk) \<inter> set ?fk = {}" using subR disj(1) by blast
    have i2: "set (LRU_keys ?E) \<inter> set (butlast ?rk) = {}"
      using subE subR knot disj(2) by blast
    have i3: "set (LRU_keys ?E) \<inter> set ?fk = {}"
      using subE kin disj(1,3) by blast
    have i4: "set (LRU_keys ?E) \<subseteq> set ?ek \<union> set ?rk" using subE kin by blast
    have "TwoQueueCache_inv (c\<lparr>recent := ?R, evict := ?E\<rparr>)"
      unfolding TwoQueueCache_inv_def
      using sz szs tot dist(2) dE dR i1 i2 i3 lenR
      by (simp add: kR size_getAndRemoveOldest size_LRU_Put)
    moreover have "LRU_Len ?R + LRU_Len (frequent c) < size_TwoQueueCache c"
      using tot lenR by simp
    ultimately show ?thesis
      unfolding eq using subR i4 by (simp add: kR)
  next
    case freq
    let ?F = "removeOldest (frequent c)"
    have eq: "ensureSpace c b = c\<lparr>frequent := ?F\<rparr>"
      using freq by (rule ensureSpace_frequent)
    from freq tot have full: "LRU_Len (recent c) + LRU_Len (frequent c) = size_TwoQueueCache c"
      by simp
    have "LRU_Len (recent c) < size_TwoQueueCache c"
      using freq(2) sz by (cases "0 < LRU_Len (recent c)") auto
    with full have "0 < LRU_Len (frequent c)" by simp
    then have ne: "?fk \<noteq> []" by (auto simp: LRU_Len_keys)
    have kF: "LRU_keys ?F = butlast ?fk" by (rule keys_removeOldest)
    have lenF: "LRU_Len ?F = LRU_Len (frequent c) - 1" using ne by (rule Len_removeOldest)
    have subF: "set (butlast ?fk) \<subseteq> set ?fk" by (rule set_butlast_subset)
    have dF: "distinct (butlast ?fk)" using dist(2) by (rule distinct_butlast)
    have i1: "set ?rk \<inter> set (butlast ?fk) = {}" using subF disj(1) by blast
    have i3: "set ?ek \<inter> set (butlast ?fk) = {}" using subF disj(3) by blast
    have "TwoQueueCache_inv (c\<lparr>frequent := ?F\<rparr>)"
      unfolding TwoQueueCache_inv_def
      using sz szs tot dist(1,3) dF i1 disj(2) i3 lenF
      by (simp add: kF size_removeOldest)
    moreover have "LRU_Len (recent c) + LRU_Len ?F < size_TwoQueueCache c"
      using tot lenF by simp
    ultimately show ?thesis
      unfolding eq using subF by (simp add: kF)
  qed
qed

lemma set_keys_LRU_Put_present:
  assumes "k \<in> set (LRU_keys c)"
  shows "set (LRU_keys (LRU_Put c k v)) = set (LRU_keys c)"
proof -
  have "x \<in> set (k # remove1 k (LRU_keys c)) \<longleftrightarrow> x \<in> set (LRU_keys c)" for x
    using assms by (cases "x = k") (simp_all add: in_set_remove1)
  with assms show ?thesis by (auto simp: keys_LRU_Put)
qed

lemma TwoQueueCache_inv_remove_recent:
  assumes inv: "TwoQueueCache_inv c"
  shows "TwoQueueCache_inv (c\<lparr>recent := LRU_Remove (recent c) k\<rparr>)"
proof -
  let ?R = "LRU_Remove (recent c) k"
  have sub: "set (LRU_keys ?R) \<subseteq> set (LRU_keys (recent c))"
    by (simp add: keys_LRU_Remove set_remove1_subset)
  have len: "LRU_Len ?R \<le> LRU_Len (recent c)" by (rule LRU_Remove_Len_le)
  have d: "distinct (LRU_keys ?R)"
    using inv by (simp add: TwoQueueCache_inv_def distinct_keys_LRU_Remove)
  have "set (LRU_keys ?R) \<inter> set (LRU_keys (frequent c)) = {}"
    "set (LRU_keys (evict c)) \<inter> set (LRU_keys ?R) = {}"
    using inv sub unfolding TwoQueueCache_inv_def by blast+
  with inv len d show ?thesis
    unfolding TwoQueueCache_inv_def by (simp add: size_LRU_Remove)
qed

lemma TwoQueueCache_inv_remove_frequent:
  assumes inv: "TwoQueueCache_inv c"
  shows "TwoQueueCache_inv (c\<lparr>frequent := LRU_Remove (frequent c) k\<rparr>)"
proof -
  let ?F = "LRU_Remove (frequent c) k"
  have sub: "set (LRU_keys ?F) \<subseteq> set (LRU_keys (frequent c))"
    by (simp add: keys_LRU_Remove set_remove1_subset)
  have len: "LRU_Len ?F \<le> LRU_Len (frequent c)" by (rule LRU_Remove_Len_le)
  have d: "distinct (LRU_keys ?F)"
    using inv by (simp add: TwoQueueCache_inv_def distinct_keys_LRU_Remove)
  have "set (LRU_keys (recent c)) \<inter> set (LRU_keys ?F) = {}"
    "set (LRU_keys (evict c)) \<inter> set (LRU_keys ?F) = {}"
    using inv sub unfolding TwoQueueCache_inv_def by blast+
  with inv len d show ?thesis
    unfolding TwoQueueCache_inv_def by (simp add: size_LRU_Remove)
qed

lemma TwoQueueCache_inv_remove_evict:
  assumes inv: "TwoQueueCache_inv c"
  shows "TwoQueueCache_inv (c\<lparr>evict := LRU_Remove (evict c) k\<rparr>)"
proof -
  let ?E = "LRU_Remove (evict c) k"
  have sub: "set (LRU_keys ?E) \<subseteq> set (LRU_keys (evict c))"
    by (simp add: keys_LRU_Remove set_remove1_subset)
  have d: "distinct (LRU_keys ?E)"
    using inv by (simp add: TwoQueueCache_inv_def distinct_keys_LRU_Remove)
  have "set (LRU_keys ?E) \<inter> set (LRU_keys (recent c)) = {}"
    "set (LRU_keys ?E) \<inter> set (LRU_keys (frequent c)) = {}"
    using inv sub unfolding TwoQueueCache_inv_def by blast+
  with inv d show ?thesis
    unfolding TwoQueueCache_inv_def by (simp add: size_LRU_Remove)
qed

lemma TwoQueueCache_inv_insert_frequent:
  assumes inv: "TwoQueueCache_inv c"
    and room: "LRU_Len (recent c) + LRU_Len (frequent c) < size_TwoQueueCache c"
    and new: "k \<notin> set (LRU_keys (recent c))" "k \<notin> set (LRU_keys (frequent c))"
      "k \<notin> set (LRU_keys (evict c))"
  shows "TwoQueueCache_inv (c\<lparr>frequent := LRU_Put (frequent c) k v\<rparr>)"
    and "LRU_keys (LRU_Put (frequent c) k v) = k # LRU_keys (frequent c)"
proof -
  let ?F = "LRU_Put (frequent c) k v"
  have "0 \<le> LRU_Len (recent c)" by (simp add: LRU_Len_def)
  with room inv have "LRU_Len (frequent c) < size_LRU (frequent c)"
    by (simp add: TwoQueueCache_inv_def)
  with new(2) show keys: "LRU_keys ?F = k # LRU_keys (frequent c)"
    by (rule keys_LRU_Put_room)
  then have len: "LRU_Len ?F = LRU_Len (frequent c) + 1"
    by (simp add: LRU_Len_keys)
  have "set (LRU_keys (recent c)) \<inter> set (LRU_keys ?F) = {}"
    "set (LRU_keys (evict c)) \<inter> set (LRU_keys ?F) = {}"
    "distinct (LRU_keys ?F)"
    using inv new unfolding TwoQueueCache_inv_def keys by auto
  with inv room len show "TwoQueueCache_inv (c\<lparr>frequent := ?F\<rparr>)"
    unfolding TwoQueueCache_inv_def by (simp add: size_LRU_Put)
qed

lemma TwoQueueCache_inv_insert_recent:
  assumes inv: "TwoQueueCache_inv c"
    and room: "LRU_Len (recent c) + LRU_Len (frequent c) < size_TwoQueueCache c"
    and new: "k \<notin> set (LRU_keys (recent c))" "k \<notin> set (LRU_keys (frequent c))"
      "k \<notin> set (LRU_keys (evict c))"
  shows "TwoQueueCache_inv (c\<lparr>recent := LRU_Put (recent c) k v\<rparr>)"
    and "LRU_keys (LRU_Put (recent c) k v) = k # LRU_keys (recent c)"
proof -
  let ?R = "LRU_Put (recent c) k v"
  have "0 \<le> LRU_Len (frequent c)" by (simp add: LRU_Len_def)
  with room inv have "LRU_Len (recent c) < size_LRU (recent c)"
    by (simp add: TwoQueueCache_inv_def)
  with new(1) show keys: "LRU_keys ?R = k # LRU_keys (recent c)"
    by (rule keys_LRU_Put_room)
  then have len: "LRU_Len ?R = LRU_Len (recent c) + 1"
    by (simp add: LRU_Len_keys)
  have "set (LRU_keys ?R) \<inter> set (LRU_keys (frequent c)) = {}"
    "set (LRU_keys (evict c)) \<inter> set (LRU_keys ?R) = {}"
    "distinct (LRU_keys ?R)"
    using inv new unfolding TwoQueueCache_inv_def keys by auto
  with inv room len show "TwoQueueCache_inv (c\<lparr>recent := ?R\<rparr>)"
    unfolding TwoQueueCache_inv_def by (simp add: size_LRU_Put)
qed

lemma TwoQueueCache_inv_touch_frequent:
  assumes inv: "TwoQueueCache_inv c"
    and F: "LRU_keys F = k # remove1 k (LRU_keys (frequent c))"
      "size_LRU F = size_LRU (frequent c)"
    and mem: "k \<in> set (LRU_keys (frequent c))"
  shows "TwoQueueCache_inv (c\<lparr>frequent := F\<rparr>)"
proof -
  have set_eq: "set (LRU_keys F) = set (LRU_keys (frequent c))"
  proof -
    have "x \<in> set (k # remove1 k (LRU_keys (frequent c))) \<longleftrightarrow> x \<in> set (LRU_keys (frequent c))"
      for x using mem by (cases "x = k") (simp_all add: in_set_remove1)
    then show ?thesis unfolding F(1) by blast
  qed
  have len: "LRU_Len F = LRU_Len (frequent c)"
    using mem by (simp add: LRU_Len_keys F(1) int_length_remove1)
  have d: "distinct (LRU_keys F)"
    using inv unfolding F(1) by (simp add: TwoQueueCache_inv_def)
  from inv len d show ?thesis
    unfolding TwoQueueCache_inv_def by (simp add: set_eq F(2))
qed

lemma LRU_Get_miss: "\<not> contains c k \<Longrightarrow> LRU_Get c k = ((None, False), c)"
  by (simp add: LRU_Get_def contains_def)

lemma removeIfExist_miss: "\<not> contains c k \<Longrightarrow> removeIfExist c k = (False, c)"
  by (simp add: removeIfExist_def contains_def)

lemma TwoQueueCache_Get_frequent:
  "contains (frequent c) k \<Longrightarrow>
   snd (TwoQueueCache_Get c k) = c\<lparr>frequent := snd (LRU_Get (frequent c) k)\<rparr>"
  by (simp add: TwoQueueCache_Get_def found_LRU_Get)

lemma TwoQueueCache_Get_recent:
  "\<not> contains (frequent c) k \<Longrightarrow> contains (recent c) k \<Longrightarrow>
   snd (TwoQueueCache_Get c k) =
     c\<lparr>recent := LRU_Remove (recent c) k,
       frequent := LRU_Put (frequent c) k (fst (LRU_Peek (recent c) k))\<rparr>"
  by (simp add: TwoQueueCache_Get_def found_LRU_Get found_LRU_Peek LRU_Get_miss Let_def)

lemma TwoQueueCache_Get_miss:
  "\<not> contains (frequent c) k \<Longrightarrow> \<not> contains (recent c) k \<Longrightarrow>
   snd (TwoQueueCache_Get c k) = c"
  by (simp add: TwoQueueCache_Get_def found_LRU_Get found_LRU_Peek LRU_Get_miss Let_def)

lemma TwoQueueCache_inv_promote:
  assumes inv: "TwoQueueCache_inv c"
    and nf: "\<not> contains (frequent c) k" and r: "contains (recent c) k"
  shows "TwoQueueCache_inv
           (c\<lparr>recent := LRU_Remove (recent c) k, frequent := LRU_Put (frequent c) k v\<rparr>)"
    and "LRU_keys (LRU_Put (frequent c) k v) = k # LRU_keys (frequent c)"
proof -
  let ?c1 = "c\<lparr>recent := LRU_Remove (recent c) k\<rparr>"
  from r have mem: "k \<in> set (LRU_keys (recent c))" by (simp add: contains_keys)
  from nf have nmem: "k \<notin> set (LRU_keys (frequent c))" by (simp add: contains_keys)
  from inv have d: "distinct (LRU_keys (recent c))"
    and tot: "LRU_Len (recent c) + LRU_Len (frequent c) \<le> size_TwoQueueCache c"
    and disj: "set (LRU_keys (evict c)) \<inter> set (LRU_keys (recent c)) = {}"
    by (simp_all add: TwoQueueCache_inv_def)
  have inv1: "TwoQueueCache_inv ?c1" using inv by (rule TwoQueueCache_inv_remove_recent)
  have "LRU_Len (LRU_Remove (recent c) k) = LRU_Len (recent c) - 1"
    using mem by (rule Len_LRU_Remove_present)
  with tot have room: "LRU_Len (recent ?c1) + LRU_Len (frequent ?c1) < size_TwoQueueCache ?c1"
    by simp
  have n1: "k \<notin> set (LRU_keys (recent ?c1))"
    using d by (simp add: set_keys_LRU_Remove)
  have n2: "k \<notin> set (LRU_keys (frequent ?c1))" using nmem by simp
  have n3: "k \<notin> set (LRU_keys (evict ?c1))" using mem disj by auto
  from TwoQueueCache_inv_insert_frequent [OF inv1 room n1 n2 n3, of v]
  show "TwoQueueCache_inv
           (c\<lparr>recent := LRU_Remove (recent c) k, frequent := LRU_Put (frequent c) k v\<rparr>)"
    and "LRU_keys (LRU_Put (frequent c) k v) = k # LRU_keys (frequent c)"
    by simp_all
qed

lemma TwoQueueCache_inv_Get:
  assumes inv: "TwoQueueCache_inv c"
  shows "TwoQueueCache_inv (snd (TwoQueueCache_Get c k))"
proof -
  consider (freq) "contains (frequent c) k"
    | (rec) "\<not> contains (frequent c) k" "contains (recent c) k"
    | (miss) "\<not> contains (frequent c) k" "\<not> contains (recent c) k"
    by blast
  then show ?thesis
  proof cases
    case freq
    then have mem: "k \<in> set (LRU_keys (frequent c))" by (simp add: contains_keys)
    have "TwoQueueCache_inv (c\<lparr>frequent := snd (LRU_Get (frequent c) k)\<rparr>)"
      using inv keys_LRU_Get_present [OF mem] size_LRU_Get mem
      by (rule TwoQueueCache_inv_touch_frequent)
    with freq show ?thesis by (simp add: TwoQueueCache_Get_frequent)
  next
    case rec
    with TwoQueueCache_inv_promote(1) [OF inv rec] show ?thesis
      by (simp add: TwoQueueCache_Get_recent)
  next
    case miss
    with inv show ?thesis by (simp add: TwoQueueCache_Get_miss)
  qed
qed

lemma TwoQueueCache_Put_frequent:
  "contains (frequent c) k \<Longrightarrow>
   TwoQueueCache_Put c k v = c\<lparr>frequent := LRU_Put (frequent c) k v\<rparr>"
  by (simp add: TwoQueueCache_Put_def)

lemma TwoQueueCache_Put_recent:
  "\<not> contains (frequent c) k \<Longrightarrow> contains (recent c) k \<Longrightarrow>
   TwoQueueCache_Put c k v =
     c\<lparr>recent := LRU_Remove (recent c) k, frequent := LRU_Put (frequent c) k v\<rparr>"
  by (simp add: TwoQueueCache_Put_def Let_def)

lemma TwoQueueCache_Put_ghost:
  "\<not> contains (frequent c) k \<Longrightarrow> \<not> contains (recent c) k \<Longrightarrow> contains (evict c) k \<Longrightarrow>
   TwoQueueCache_Put c k v =
     (ensureSpace c True)\<lparr>evict := LRU_Remove (evict (ensureSpace c True)) k,
       frequent := LRU_Put (frequent (ensureSpace c True)) k v\<rparr>"
  by (simp add: TwoQueueCache_Put_def Let_def)

lemma TwoQueueCache_Put_new:
  "\<not> contains (frequent c) k \<Longrightarrow> \<not> contains (recent c) k \<Longrightarrow> \<not> contains (evict c) k \<Longrightarrow>
   TwoQueueCache_Put c k v =
     (ensureSpace c False)\<lparr>recent := LRU_Put (recent (ensureSpace c False)) k v\<rparr>"
  by (simp add: TwoQueueCache_Put_def Let_def)

lemma TwoQueueCache_Put_ghost_post:
  assumes inv: "TwoQueueCache_inv c"
    and nf: "\<not> contains (frequent c) k" and nr: "\<not> contains (recent c) k"
    and g: "contains (evict c) k"
  shows "TwoQueueCache_inv (TwoQueueCache_Put c k v)"
    and "LRU_keys (frequent (TwoQueueCache_Put c k v))
           = k # LRU_keys (frequent (ensureSpace c True))"
    and "k \<notin> set (LRU_keys (evict (TwoQueueCache_Put c k v)))"
    and "recent (TwoQueueCache_Put c k v) = recent (ensureSpace c True)"
    and "k \<notin> set (LRU_keys (recent (TwoQueueCache_Put c k v)))"
proof -
  let ?c1 = "ensureSpace c True"
  let ?c2 = "?c1\<lparr>evict := LRU_Remove (evict ?c1) k\<rparr>"
  have eq: "TwoQueueCache_Put c k v = ?c2\<lparr>frequent := LRU_Put (frequent ?c2) k v\<rparr>"
    using nf nr g by (simp add: TwoQueueCache_Put_ghost)
  from ensureSpace_post [OF inv, of True]
  have inv1: "TwoQueueCache_inv ?c1"
    and room1: "LRU_Len (recent ?c1) + LRU_Len (frequent ?c1) < size_TwoQueueCache c"
    and sub: "set (LRU_keys (recent ?c1)) \<subseteq> set (LRU_keys (recent c))"
      "set (LRU_keys (frequent ?c1)) \<subseteq> set (LRU_keys (frequent c))"
    by blast+
  have inv2: "TwoQueueCache_inv ?c2" using inv1 by (rule TwoQueueCache_inv_remove_evict)
  have room2: "LRU_Len (recent ?c2) + LRU_Len (frequent ?c2) < size_TwoQueueCache ?c2"
    using room1 by (simp add: size_ensureSpace)
  have n1: "k \<notin> set (LRU_keys (recent ?c2))"
    using nr sub(1) by (auto simp: contains_keys)
  have n2: "k \<notin> set (LRU_keys (frequent ?c2))"
    using nf sub(2) by (auto simp: contains_keys)
  from inv1 have "distinct (LRU_keys (evict ?c1))" by (simp add: TwoQueueCache_inv_def)
  then have n3: "k \<notin> set (LRU_keys (evict ?c2))"
    by (simp add: set_keys_LRU_Remove)
  from TwoQueueCache_inv_insert_frequent [OF inv2 room2 n1 n2 n3, of v]
  have a: "TwoQueueCache_inv (?c2\<lparr>frequent := LRU_Put (frequent ?c2) k v\<rparr>)"
    and b: "LRU_keys (LRU_Put (frequent ?c2) k v) = k # LRU_keys (frequent ?c2)"
    by simp_all
  from a show "TwoQueueCache_inv (TwoQueueCache_Put c k v)" unfolding eq .
  from b show "LRU_keys (frequent (TwoQueueCache_Put c k v)) = k # LRU_keys (frequent ?c1)"
    unfolding eq by simp
  from n3 show "k \<notin> set (LRU_keys (evict (TwoQueueCache_Put c k v)))"
    unfolding eq by simp
  show "recent (TwoQueueCache_Put c k v) = recent ?c1" unfolding eq by simp
  from n1 show "k \<notin> set (LRU_keys (recent (TwoQueueCache_Put c k v)))"
    unfolding eq by simp
qed

lemma TwoQueueCache_inv_Put:
  assumes inv: "TwoQueueCache_inv c"
  shows "TwoQueueCache_inv (TwoQueueCache_Put c k v)"
proof -
  consider (freq) "contains (frequent c) k"
    | (rec) "\<not> contains (frequent c) k" "contains (recent c) k"
    | (ghost) "\<not> contains (frequent c) k" "\<not> contains (recent c) k" "contains (evict c) k"
    | (new) "\<not> contains (frequent c) k" "\<not> contains (recent c) k" "\<not> contains (evict c) k"
    by blast
  then show ?thesis
  proof cases
    case freq
    then have mem: "k \<in> set (LRU_keys (frequent c))" by (simp add: contains_keys)
    have "TwoQueueCache_inv (c\<lparr>frequent := LRU_Put (frequent c) k v\<rparr>)"
      using inv keys_LRU_Put_present [OF mem] size_LRU_Put mem
      by (rule TwoQueueCache_inv_touch_frequent)
    with freq show ?thesis by (simp add: TwoQueueCache_Put_frequent)
  next
    case rec
    with TwoQueueCache_inv_promote(1) [OF inv rec] show ?thesis
      by (simp add: TwoQueueCache_Put_recent)
  next
    case ghost
    with inv show ?thesis by (simp add: TwoQueueCache_Put_ghost_post(1))
  next
    case new
    let ?c1 = "ensureSpace c False"
    from ensureSpace_post [OF inv, of False]
    have inv1: "TwoQueueCache_inv ?c1"
      and room1: "LRU_Len (recent ?c1) + LRU_Len (frequent ?c1) < size_TwoQueueCache c"
      and sub: "set (LRU_keys (recent ?c1)) \<subseteq> set (LRU_keys (recent c))"
        "set (LRU_keys (frequent ?c1)) \<subseteq> set (LRU_keys (frequent c))"
        "set (LRU_keys (evict ?c1)) \<subseteq> set (LRU_keys (evict c)) \<union> set (LRU_keys (recent c))"
      by blast+
    have room: "LRU_Len (recent ?c1) + LRU_Len (frequent ?c1) < size_TwoQueueCache ?c1"
      using room1 by (simp add: size_ensureSpace)
    have n: "k \<notin> set (LRU_keys (recent ?c1))" "k \<notin> set (LRU_keys (frequent ?c1))"
      "k \<notin> set (LRU_keys (evict ?c1))"
      using new sub by (auto simp: contains_keys)
    from TwoQueueCache_inv_insert_recent(1) [OF inv1 room n, of v] new show ?thesis
      by (simp add: TwoQueueCache_Put_new)
  qed
qed

lemma TwoQueueCache_inv_Remove:
  assumes inv: "TwoQueueCache_inv c"
  shows "TwoQueueCache_inv (TwoQueueCache_Remove c k)"
proof -
  consider (freq) "contains (frequent c) k"
    | (rec) "\<not> contains (frequent c) k" "contains (recent c) k"
    | (other) "\<not> contains (frequent c) k" "\<not> contains (recent c) k"
    by blast
  then show ?thesis
  proof cases
    case freq
    then have "TwoQueueCache_Remove c k = c\<lparr>frequent := LRU_Remove (frequent c) k\<rparr>"
      by (simp add: TwoQueueCache_Remove_def found_removeIfExist LRU_Remove_def)
    with TwoQueueCache_inv_remove_frequent [OF inv] show ?thesis by simp
  next
    case rec
    then have "TwoQueueCache_Remove c k = c\<lparr>recent := LRU_Remove (recent c) k\<rparr>"
      by (simp add: TwoQueueCache_Remove_def found_removeIfExist LRU_Remove_def
          removeIfExist_miss Let_def)
    with TwoQueueCache_inv_remove_recent [OF inv] show ?thesis by simp
  next
    case other
    then have "TwoQueueCache_Remove c k = c\<lparr>evict := LRU_Remove (evict c) k\<rparr>"
      by (simp add: TwoQueueCache_Remove_def found_removeIfExist LRU_Remove_def
          removeIfExist_miss Let_def)
    with TwoQueueCache_inv_remove_evict [OF inv] show ?thesis by simp
  qed
qed

lemma TwoQueueCache_inv_Purge:
  "TwoQueueCache_inv c \<Longrightarrow> TwoQueueCache_inv (TwoQueueCache_Purge c)"
  by (simp add: TwoQueueCache_inv_def TwoQueueCache_Purge_def keys_LRU_Purge size_LRU_Purge
      LRU_Len_keys)

lemma TwoQueueCache_inv_call:
  "TwoQueueCache_inv c \<Longrightarrow> TwoQueueCache_inv (TwoQueueCache_call c x)"
  by (cases x)
     (simp_all add: TwoQueueCache_inv_Get TwoQueueCache_inv_Put TwoQueueCache_inv_Remove
        TwoQueueCache_inv_Purge)

lemma TwoQueueCache_inv_calls:
  "TwoQueueCache_inv c \<Longrightarrow> TwoQueueCache_inv (TwoQueueCache_calls c ops)"
  unfolding TwoQueueCache_calls_def
  by (induction ops arbitrary: c) (simp_all add: TwoQueueCache_inv_call)

lemma NewTwoQueueCache_inv:
  assumes "NewTwoQueueCache n = Inr c"
  shows "TwoQueueCache_inv c" and "size_TwoQueueCache c = n"
proof -
  from assms have n: "0 < n"
    by (auto simp: NewTwoQueueCache_def newTowQueueParams_def split: if_splits)
  let ?rs = "int_of_float64 (f64_mul (float64 n) defaultRecentRatio)"
  let ?es = "int_of_float64 (f64_mul (float64 n) defaultGhostRatio)"
  from assms n have es: "0 < ?es"
    and c: "c = \<lparr>size_TwoQueueCache = n, recentSize = ?rs,
        recent = \<lparr>size_LRU = n, evictList = []\<rparr>,
        frequent = \<lparr>size_LRU = n, evictList = []\<rparr>,
        evict = \<lparr>size_LRU = ?es, evictList = []\<rparr>\<rparr>"
    by (auto simp: NewTwoQueueCache_def newTowQueueParams_def NewLRU_def Let_def
        split: if_splits)
  from default_sizes [OF n] obtain V where V: "0 < V" "V \<le> 2 * n"
    and rsV: "?rs = (if V div 4 < 2 ^ 63 then V div 4 else - (2 ^ 63))"
    by blast
  have "V div 4 < n" using V n by linarith
  moreover have "- (2 ^ 63) < n" using n by simp
  ultimately have rs: "?rs < n" unfolding rsV by simp
  show "size_TwoQueueCache c = n" by (simp add: c)
  show "TwoQueueCache_inv c"
    unfolding TwoQueueCache_inv_def c using n es rs
    by (simp add: LRU_Len_def LRU_keys_def)
qed

lemma example_2Q_ghost_reached:
  "TwoQueueCache_calls example_2Q_new
     [Op_Put 1 (Some 10), Op_Put 2 (Some 20), Op_Put 3 (Some 30), Op_Put 4 (Some 40),
      Op_Get 2, Op_Get 3, Op_Get 4, Op_Put 5 (Some 50)]
   = example_2Q_ghost"
  by (simp add: TwoQueueCache_calls_def TQ_unfold example_2Q_new_def example_2Q_ghost_def)

lemma TwoQueueCache_Put_example_ghost:
  "TwoQueueCache_Put example_2Q_ghost 1 (Some 11)
   = \<lparr>size_TwoQueueCache = 4, recentSize = 1,
      recent = \<lparr>size_LRU = 4, evictList = [\<lparr>Key = 5, Value = Some 50\<rparr>]\<rparr>,
      frequent = \<lparr>size_LRU = 4, evictList =
         [\<lparr>Key = 1, Value = Some 11\<rparr>, \<lparr>Key = 4, Value = Some 40\<rparr>,
          \<lparr>Key = 3, Value = Some 30\<rparr>]\<rparr>,
      evict = \<lparr>size_LRU = 2, evictList = []\<rparr>\<rparr>"
  by (simp add: TQ_unfold example_2Q_ghost_def)

lemma TwoQueueCache_Get_example_recent:
  "snd (TwoQueueCache_Get example_2Q_boundary 1)
   = \<lparr>size_TwoQueueCache = 4, recentSize = 1,
      recent = \<lparr>size_LRU = 4, evictList = []\<rparr>,
      frequent = \<lparr>size_LRU = 4, evictList =
         [\<lparr>Key = 1, Value = Some 10\<rparr>, \<lparr>Key = 4, Value = Some 40\<rparr>,
          \<lparr>Key = 3, Value = Some 30\<rparr>, \<lparr>Key = 2, Value = Some 20\<rparr>]\<rparr>,
      evict = \<lparr>size_LRU = 2, evictList = []\<rparr>\<rparr>"
  by (simp add: TQ_unfold example_2Q_boundary_def)

lemma ensureSpace_evicts_recent:
  assumes ev: "0 < size_LRU (evict c)"
    and ch: "LRU_keys (recent (ensureSpace c b)) \<noteq> LRU_keys (recent c)"
  shows "LRU_keys (recent c) \<noteq> []"
    and "LRU_keys (recent (ensureSpace c b)) = butlast (LRU_keys (recent c))"
    and "items (evict (ensureSpace c b)) (last (LRU_keys (recent c)))
           = Some \<lparr>Key = last (LRU_keys (recent c)), Value = None\<rparr>"
proof -
  consider (room) "LRU_Len (recent c) + LRU_Len (frequent c) < size_TwoQueueCache c"
    | (rec) "\<not> LRU_Len (recent c) + LRU_Len (frequent c) < size_TwoQueueCache c"
        "0 < LRU_Len (recent c)"
        "recentSize c < LRU_Len (recent c) \<or> (LRU_Len (recent c) = recentSize c \<and> \<not> b)"
    | (freq) "\<not> LRU_Len (recent c) + LRU_Len (frequent c) < size_TwoQueueCache c"
        "\<not> (0 < LRU_Len (recent c)
          \<and> (recentSize c < LRU_Len (recent c) \<or> (LRU_Len (recent c) = recentSize c \<and> \<not> b)))"
    by blast
  then have "LRU_keys (recent c) \<noteq> []
     \<and> LRU_keys (recent (ensureSpace c b)) = butlast (LRU_keys (recent c))
     \<and> items (evict (ensureSpace c b)) (last (LRU_keys (recent c)))
           = Some \<lparr>Key = last (LRU_keys (recent c)), Value = None\<rparr>"
  proof cases
    case room
    then have "ensureSpace c b = c" by (rule ensureSpace_room)
    with ch show ?thesis by simp
  next
    case rec
    have eq: "ensureSpace c b =
        c\<lparr>recent := snd (getAndRemoveOldest (recent c)),
          evict := LRU_Put (evict c) (last (LRU_keys (recent c))) None\<rparr>"
      using rec by (rule ensureSpace_recent)
    from rec(2) have "LRU_keys (recent c) \<noteq> []" by (auto simp: LRU_Len_keys)
    moreover have "LRU_keys (recent (ensureSpace c b)) = butlast (LRU_keys (recent c))"
      unfolding eq by (simp add: keys_getAndRemoveOldest)
    moreover have "items (evict (ensureSpace c b)) (last (LRU_keys (recent c)))
           = Some \<lparr>Key = last (LRU_keys (recent c)), Value = None\<rparr>"
      unfolding eq using ev by (simp add: items_LRU_Put)
    ultimately show ?thesis by blast
  next
    case freq
    have "ensureSpace c b = c\<lparr>frequent := removeOldest (frequent c)\<rparr>"
      using freq by (rule ensureSpace_frequent)
    with ch show ?thesis by simp
  qed
  then show "LRU_keys (recent c) \<noteq> []"
    and "LRU_keys (recent (ensureSpace c b)) = butlast (LRU_keys (recent c))"
    and "items (evict (ensureSpace c b)) (last (LRU_keys (recent c)))
           = Some \<lparr>Key = last (LRU_keys (recent c)), Value = None\<rparr>"
    by blast+
qed

section \<open>Claims about reachable states of the 2Q cache\<close>

text \<open>
  C5. Ghost re-admission, in every state \<open>c\<close> that a cache built by \<open>NewTwoQueueCache\<close>
  reaches. Whenever \<open>ensureSpace\<close> changes \<open>recent\<close>, it has unlinked the oldest entry of
  \<open>recent\<close>, and the ghost list then holds an entry for that key whose value is \<open>nil\<close>.
  A \<open>Put\<close> on a key that the ghost list contains removes the key from the ghost list and
  links it at the front of \<open>frequent\<close> with the new value; \<open>recent\<close> is what
  \<open>ensureSpace(true)\<close> left of it, so it gains no key and does not contain the key.
\<close>

theorem TwoQueueCache_ghost_readmission:
  assumes "NewTwoQueueCache n = Inr c0" and "c = TwoQueueCache_calls c0 ops"
  shows "(LRU_keys (recent (ensureSpace c b)) \<noteq> LRU_keys (recent c) \<longrightarrow>
            LRU_keys (recent c) \<noteq> []
            \<and> LRU_keys (recent (ensureSpace c b)) = butlast (LRU_keys (recent c))
            \<and> items (evict (ensureSpace c b)) (last (LRU_keys (recent c)))
                = Some \<lparr>Key = last (LRU_keys (recent c)), Value = None\<rparr>)
     \<and> (contains (evict c) k \<longrightarrow>
            \<not> contains (evict (TwoQueueCache_Put c k v)) k
            \<and> items (frequent (TwoQueueCache_Put c k v)) k = Some \<lparr>Key = k, Value = v\<rparr>
            \<and> LRU_keys (frequent (TwoQueueCache_Put c k v))
                = k # LRU_keys (frequent (ensureSpace c True))
            \<and> recent (TwoQueueCache_Put c k v) = recent (ensureSpace c True)
            \<and> set (LRU_keys (recent (TwoQueueCache_Put c k v))) \<subseteq> set (LRU_keys (recent c))
            \<and> \<not> contains (recent (TwoQueueCache_Put c k v)) k)"
proof -
  have inv: "TwoQueueCache_inv c"
    unfolding assms(2) using NewTwoQueueCache_inv(1) [OF assms(1)]
    by (rule TwoQueueCache_inv_calls)
  then have ev: "0 < size_LRU (evict c)" by (simp add: TwoQueueCache_inv_def)
  have part1: "LRU_keys (recent c) \<noteq> []
            \<and> LRU_keys (recent (ensureSpace c b)) = butlast (LRU_keys (recent c))
            \<and> items (evict (ensureSpace c b)) (last (LRU_keys (recent c)))
                = Some \<lparr>Key = last (LRU_keys (recent c)), Value = None\<rparr>"
    if "LRU_keys (recent (ensureSpace c b)) \<noteq> LRU_keys (recent c)"
    using ensureSpace_evicts_recent [OF ev that] by blast
  have part2: "\<not> contains (evict (TwoQueueCache_Put c k v)) k
            \<and> items (frequent (TwoQueueCache_Put c k v)) k = Some \<lparr>Key = k, Value = v\<rparr>
            \<and> LRU_keys (frequent (TwoQueueCache_Put c k v))
                = k # LRU_keys (frequent (ensureSpace c True))
            \<and> recent (TwoQueueCache_Put c k v) = recent (ensureSpace c True)
            \<and> set (LRU_keys (recent (TwoQueueCache_Put c k v))) \<subseteq> set (LRU_keys (recent c))
            \<and> \<not> contains (recent (TwoQueueCache_Put c k v)) k"
    if g: "contains (evict c) k"
  proof -
    from inv g have nf: "\<not> contains (frequent c) k" and nr: "\<not> contains (recent c) k"
      by (auto simp: TwoQueueCache_inv_def contains_keys)
    note post = TwoQueueCache_Put_ghost_post [OF inv nf nr g, of v]
    from ensureSpace_post [OF inv, of True]
    have inv1: "TwoQueueCache_inv (ensureSpace c True)"
      and sub: "set (LRU_keys (recent (ensureSpace c True))) \<subseteq> set (LRU_keys (recent c))"
      by blast+
    from inv1 have "0 < size_LRU (frequent (ensureSpace c True))"
      by (simp add: TwoQueueCache_inv_def)
    then have "items (LRU_Put (frequent (ensureSpace c True)) k v) k
        = Some \<lparr>Key = k, Value = v\<rparr>"
      by (rule items_LRU_Put)
    then have it: "items (frequent (TwoQueueCache_Put c k v)) k = Some \<lparr>Key = k, Value = v\<rparr>"
      using nf nr g by (simp add: TwoQueueCache_Put_ghost)
    from post(3) have a: "\<not> contains (evict (TwoQueueCache_Put c k v)) k"
      by (simp add: contains_keys)
    from post(5) have e: "\<not> contains (recent (TwoQueueCache_Put c k v)) k"
      by (simp add: contains_keys)
    from sub post(4)
    have s: "set (LRU_keys (recent (TwoQueueCache_Put c k v))) \<subseteq> set (LRU_keys (recent c))"
      by simp
    from a it post(2) post(4) s e show ?thesis by blast
  qed
  from part1 part2 show ?thesis by blast
qed

theorem TwoQueueCache_ghost_readmission_witness:
  "NewTwoQueueCache 4 = Inr example_2Q_new
   \<and> example_2Q_ghost = TwoQueueCache_calls example_2Q_new
        [Op_Put 1 (Some 10), Op_Put 2 (Some 20), Op_Put 3 (Some 30), Op_Put 4 (Some 40),
         Op_Get 2, Op_Get 3, Op_Get 4, Op_Put 5 (Some 50)]
   \<and> LRU_keys (recent (ensureSpace example_2Q_ghost False)) \<noteq> LRU_keys (recent example_2Q_ghost)
   \<and> items (evict (ensureSpace example_2Q_ghost False)) 5 = Some \<lparr>Key = 5, Value = None\<rparr>
   \<and> contains (evict example_2Q_ghost) 1
   \<and> \<not> contains (evict (TwoQueueCache_Put example_2Q_ghost 1 (Some 11))) 1
   \<and> items (frequent (TwoQueueCache_Put example_2Q_ghost 1 (Some 11))) 1
       = Some \<lparr>Key = 1, Value = Some 11\<rparr>
   \<and> \<not> contains (recent (TwoQueueCache_Put example_2Q_ghost 1 (Some 11))) 1"
proof -
  have ch: "LRU_keys (recent (ensureSpace example_2Q_ghost False))
      \<noteq> LRU_keys (recent example_2Q_ghost)"
    by (simp add: TQ_unfold LRU_keys_def example_2Q_ghost_def)
  have g: "contains (evict example_2Q_ghost) 1"
    by (simp add: contains_def items_def example_2Q_ghost_def)
  have l: "last (LRU_keys (recent example_2Q_ghost)) = 5"
    by (simp add: LRU_keys_def example_2Q_ghost_def)
  note th = TwoQueueCache_ghost_readmission
    [OF NewTwoQueueCache_4 example_2Q_ghost_reached [symmetric], of False 1 "Some 11"]
  from th ch have "items (evict (ensureSpace example_2Q_ghost False))
      (last (LRU_keys (recent example_2Q_ghost)))
      = Some \<lparr>Key = last (LRU_keys (recent example_2Q_ghost)), Value = None\<rparr>"
    by blast
  then have a: "items (evict (ensureSpace example_2Q_ghost False)) 5
      = Some \<lparr>Key = 5, Value = None\<rparr>"
    unfolding l .
  from th g have b: "\<not> contains (evict (TwoQueueCache_Put example_2Q_ghost 1 (Some 11))) 1"
    "items (frequent (TwoQueueCache_Put example_2Q_ghost 1 (Some 11))) 1
       = Some \<lparr>Key = 1, Value = Some 11\<rparr>"
    "\<not> contains (recent (TwoQueueCache_Put example_2Q_ghost 1 (Some 11))) 1"
    by blast+
  from NewTwoQueueCache_4 example_2Q_ghost_reached [symmetric] ch a g b show ?thesis
    by blast
qed

lemma find_Key_split:
  "find (\<lambda>e. Key e = k) xs = Some ele \<Longrightarrow>
   \<exists>ys zs. xs = ys @ ele # zs \<and> list_Remove k xs = ys @ zs"
proof (induction xs)
  case Nil
  then show ?case by simp
next
  case (Cons e es)
  show ?case
  proof (cases "Key e = k")
    case True
    with Cons.prems have "e = ele" by simp
    with True have "e # es = [] @ ele # es \<and> list_Remove k (e # es) = [] @ es" by simp
    then show ?thesis by blast
  next
    case False
    with Cons.prems have "find (\<lambda>e. Key e = k) es = Some ele" by simp
    from Cons.IH [OF this] obtain ys zs where "es = ys @ ele # zs"
      and "list_Remove k es = ys @ zs" by blast
    with False have "e # es = (e # ys) @ ele # zs \<and> list_Remove k (e # es) = (e # ys) @ zs"
      by simp
    then show ?thesis by blast
  qed
qed

lemma LRU_Get_hit:
  "items c k = Some ele \<Longrightarrow>
   LRU_Get c k = ((Value ele, True), c\<lparr>evictList := ele # list_Remove k (evictList c)\<rparr>)"
  by (simp add: LRU_Get_def)

lemma LRU_Peek_hit: "items c k = Some ele \<Longrightarrow> LRU_Peek c k = (Value ele, True)"
  by (simp add: LRU_Peek_def)

lemma LRU_Remove_hit:
  "items c k = Some ele \<Longrightarrow> LRU_Remove c k = c\<lparr>evictList := list_Remove k (evictList c)\<rparr>"
  by (simp add: LRU_Remove_def removeIfExist_def)

lemma LRU_Put_room:
  "\<not> contains c k \<Longrightarrow> LRU_Len c < size_LRU c \<Longrightarrow>
   LRU_Put c k v = c\<lparr>evictList := \<lparr>Key = k, Value = v\<rparr> # evictList c\<rparr>"
  by (simp add: LRU_Put_def contains_def LRU_Len_def Let_def)

lemma fst_TwoQueueCache_Get_frequent:
  "contains (frequent c) k \<Longrightarrow>
   fst (TwoQueueCache_Get c k) = fst (LRU_Get (frequent c) k)"
  by (simp add: TwoQueueCache_Get_def found_LRU_Get)

lemma fst_TwoQueueCache_Get_recent:
  "\<not> contains (frequent c) k \<Longrightarrow> contains (recent c) k \<Longrightarrow>
   fst (TwoQueueCache_Get c k) = (fst (LRU_Peek (recent c) k), True)"
  by (simp add: TwoQueueCache_Get_def found_LRU_Get found_LRU_Peek LRU_Get_miss Let_def)

lemma fst_TwoQueueCache_Get_miss:
  "\<not> contains (frequent c) k \<Longrightarrow> \<not> contains (recent c) k \<Longrightarrow>
   fst (TwoQueueCache_Get c k) = (None, False)"
  by (simp add: TwoQueueCache_Get_def found_LRU_Get found_LRU_Peek LRU_Get_miss Let_def)

lemma TwoQueueCache_Get_frequent_entries:
  assumes "contains (frequent c) k"
  shows "\<exists>ele ys zs. items (frequent c) k = Some ele
     \<and> evictList (frequent c) = ys @ ele # zs
     \<and> frequent (snd (TwoQueueCache_Get c k)) = (frequent c)\<lparr>evictList := ele # ys @ zs\<rparr>
     \<and> fst (TwoQueueCache_Get c k) = (Value ele, True)"
proof -
  from assms obtain ele where it: "items (frequent c) k = Some ele"
    by (auto simp: contains_def)
  then obtain ys zs where sp: "evictList (frequent c) = ys @ ele # zs"
    "list_Remove k (evictList (frequent c)) = ys @ zs"
    unfolding items_def by (blast dest: find_Key_split)
  have "frequent (snd (TwoQueueCache_Get c k)) = (frequent c)\<lparr>evictList := ele # ys @ zs\<rparr>"
    using assms by (simp add: TwoQueueCache_Get_frequent LRU_Get_hit [OF it] sp(2))
  moreover have "fst (TwoQueueCache_Get c k) = (Value ele, True)"
    using assms by (simp add: fst_TwoQueueCache_Get_frequent LRU_Get_hit [OF it])
  ultimately show ?thesis using it sp(1) by blast
qed

lemma TwoQueueCache_Get_recent_entries:
  assumes nf: "\<not> contains (frequent c) k" and r: "contains (recent c) k"
    and room: "LRU_Len (frequent c) < size_LRU (frequent c)"
  shows "\<exists>ele ys zs. items (recent c) k = Some ele
     \<and> evictList (recent c) = ys @ ele # zs
     \<and> recent (snd (TwoQueueCache_Get c k)) = (recent c)\<lparr>evictList := ys @ zs\<rparr>
     \<and> frequent (snd (TwoQueueCache_Get c k))
         = (frequent c)\<lparr>evictList := ele # evictList (frequent c)\<rparr>
     \<and> fst (TwoQueueCache_Get c k) = (Value ele, True)"
proof -
  from r obtain ele where it: "items (recent c) k = Some ele"
    by (auto simp: contains_def)
  then have key: "Key ele = k"
    unfolding items_def by (blast dest: find_Key_Some)
  from it obtain ys zs where sp: "evictList (recent c) = ys @ ele # zs"
    "list_Remove k (evictList (recent c)) = ys @ zs"
    unfolding items_def by (blast dest: find_Key_split)
  have item: "\<lparr>Key = k, Value = Value ele\<rparr> = ele" using key by simp
  have "recent (snd (TwoQueueCache_Get c k)) = (recent c)\<lparr>evictList := ys @ zs\<rparr>"
    using nf r by (simp add: TwoQueueCache_Get_recent LRU_Remove_hit [OF it] sp(2))
  moreover have "frequent (snd (TwoQueueCache_Get c k))
      = (frequent c)\<lparr>evictList := ele # evictList (frequent c)\<rparr>"
    using nf r
    by (simp add: TwoQueueCache_Get_recent LRU_Peek_hit [OF it] LRU_Put_room [OF nf room] item)
  moreover have "fst (TwoQueueCache_Get c k) = (Value ele, True)"
    using nf r by (simp add: fst_TwoQueueCache_Get_recent LRU_Peek_hit [OF it])
  ultimately show ?thesis using it sp(1) by blast
qed

text \<open>
  C9. \<open>Get\<close> on a 2Q cache, in every state \<open>c\<close> that a cache built by
  \<open>NewTwoQueueCache\<close> reaches. \<open>Len()\<close> is unchanged, the keys held by \<open>recent\<close> and
  \<open>frequent\<close> together are the same set, and the ghost list, \<open>size\<close> and \<open>recentSize\<close>
  are untouched. The entries of \<open>recent\<close> and \<open>frequent\<close> together never exceed the
  capacity of \<open>frequent\<close>. When \<open>frequent\<close> contains the key, \<open>recent\<close> is untouched and
  \<open>frequent\<close> holds the same entries, with the same values, the entry of this key moved
  to the front; its value is returned. When only \<open>recent\<close> contains the key, \<open>frequent\<close>
  is below its capacity, the entry is taken out of \<open>recent\<close>, whose other entries stay in
  place, and \<open>frequent\<close> becomes this entry followed by all its former entries: nothing is
  evicted, and the value of the entry is returned. When neither contains the key, the
  cache is unchanged and the call reports not-found.
\<close>

theorem TwoQueueCache_Get_frame:
  assumes "NewTwoQueueCache n = Inr c0" and "c = TwoQueueCache_calls c0 ops"
  shows "TwoQueueCache_Len (snd (TwoQueueCache_Get c k)) = TwoQueueCache_Len c
     \<and> set (LRU_keys (recent (snd (TwoQueueCache_Get c k))))
         \<union> set (LRU_keys (frequent (snd (TwoQueueCache_Get c k))))
       = set (LRU_keys (recent c)) \<union> set (LRU_keys (frequent c))
     \<and> evict (snd (TwoQueueCache_Get c k)) = evict c
     \<and> size_TwoQueueCache (snd (TwoQueueCache_Get c k)) = size_TwoQueueCache c
     \<and> recentSize (snd (TwoQueueCache_Get c k)) = recentSize c
     \<and> LRU_Len (recent c) + LRU_Len (frequent c) \<le> size_LRU (frequent c)
     \<and> (contains (frequent c) k \<longrightarrow>
           recent (snd (TwoQueueCache_Get c k)) = recent c
           \<and> LRU_keys (frequent (snd (TwoQueueCache_Get c k)))
               = k # remove1 k (LRU_keys (frequent c))
           \<and> (\<exists>ele ys zs. items (frequent c) k = Some ele
                 \<and> evictList (frequent c) = ys @ ele # zs
                 \<and> frequent (snd (TwoQueueCache_Get c k))
                     = (frequent c)\<lparr>evictList := ele # ys @ zs\<rparr>
                 \<and> fst (TwoQueueCache_Get c k) = (Value ele, True)))
     \<and> (\<not> contains (frequent c) k \<and> contains (recent c) k \<longrightarrow>
           LRU_Len (frequent c) < size_LRU (frequent c)
           \<and> LRU_keys (recent (snd (TwoQueueCache_Get c k))) = remove1 k (LRU_keys (recent c))
           \<and> \<not> contains (recent (snd (TwoQueueCache_Get c k))) k
           \<and> LRU_keys (frequent (snd (TwoQueueCache_Get c k))) = k # LRU_keys (frequent c)
           \<and> (\<exists>ele ys zs. items (recent c) k = Some ele
                 \<and> evictList (recent c) = ys @ ele # zs
                 \<and> recent (snd (TwoQueueCache_Get c k)) = (recent c)\<lparr>evictList := ys @ zs\<rparr>
                 \<and> frequent (snd (TwoQueueCache_Get c k))
                     = (frequent c)\<lparr>evictList := ele # evictList (frequent c)\<rparr>
                 \<and> fst (TwoQueueCache_Get c k) = (Value ele, True)))
     \<and> (\<not> contains (frequent c) k \<and> \<not> contains (recent c) k \<longrightarrow>
           snd (TwoQueueCache_Get c k) = c
           \<and> fst (TwoQueueCache_Get c k) = (None, False))"
proof -
  let ?c' = "snd (TwoQueueCache_Get c k)"
  have inv: "TwoQueueCache_inv c"
    unfolding assms(2) using NewTwoQueueCache_inv(1) [OF assms(1)]
    by (rule TwoQueueCache_inv_calls)
  then have cap: "LRU_Len (recent c) + LRU_Len (frequent c) \<le> size_LRU (frequent c)"
    and d: "distinct (LRU_keys (recent c))"
    by (simp_all add: TwoQueueCache_inv_def)
  consider (freq) "contains (frequent c) k"
    | (rec) "\<not> contains (frequent c) k" "contains (recent c) k"
    | (miss) "\<not> contains (frequent c) k" "\<not> contains (recent c) k"
    by blast
  then show ?thesis
  proof cases
    case freq
    then have mem: "k \<in> set (LRU_keys (frequent c))" by (simp add: contains_keys)
    have eq: "?c' = c\<lparr>frequent := snd (LRU_Get (frequent c) k)\<rparr>"
      using freq by (rule TwoQueueCache_Get_frequent)
    have "TwoQueueCache_Len ?c' = TwoQueueCache_Len c"
      unfolding eq by (simp add: TwoQueueCache_Len_def LRU_Get_Len)
    moreover have "set (LRU_keys (recent ?c')) \<union> set (LRU_keys (frequent ?c'))
        = set (LRU_keys (recent c)) \<union> set (LRU_keys (frequent c))"
      unfolding eq by (simp add: set_keys_LRU_Get)
    moreover have "evict ?c' = evict c" "recent ?c' = recent c"
      "size_TwoQueueCache ?c' = size_TwoQueueCache c" "recentSize ?c' = recentSize c"
      unfolding eq by simp_all
    moreover have "LRU_keys (frequent ?c') = k # remove1 k (LRU_keys (frequent c))"
      unfolding eq using mem by (simp add: keys_LRU_Get_present)
    moreover note TwoQueueCache_Get_frequent_entries [OF freq]
    ultimately show ?thesis using freq cap by blast
  next
    case rec
    from rec have mem: "k \<in> set (LRU_keys (recent c))"
      and nmem: "k \<notin> set (LRU_keys (frequent c))"
      by (simp_all add: contains_keys)
    let ?v = "fst (LRU_Peek (recent c) k)"
    have eq: "?c' = c\<lparr>recent := LRU_Remove (recent c) k,
        frequent := LRU_Put (frequent c) k ?v\<rparr>"
      using rec by (rule TwoQueueCache_Get_recent)
    have kf: "LRU_keys (LRU_Put (frequent c) k ?v) = k # LRU_keys (frequent c)"
      using TwoQueueCache_inv_promote(2) [OF inv rec] .
    have kr: "LRU_keys (LRU_Remove (recent c) k) = remove1 k (LRU_keys (recent c))"
      by (rule keys_LRU_Remove)
    have "0 < LRU_Len (recent c)" using mem by (auto simp: LRU_Len_keys)
    with cap have room: "LRU_Len (frequent c) < size_LRU (frequent c)" by simp
    have "TwoQueueCache_Len ?c' = TwoQueueCache_Len c"
      unfolding eq using mem
      by (simp add: TwoQueueCache_Len_def LRU_Len_keys kf kr int_length_remove1)
    moreover have "set (LRU_keys (recent ?c')) \<union> set (LRU_keys (frequent ?c'))
        = set (LRU_keys (recent c)) \<union> set (LRU_keys (frequent c))"
      unfolding eq using mem d by (auto simp: kf kr)
    moreover have "evict ?c' = evict c"
      "size_TwoQueueCache ?c' = size_TwoQueueCache c" "recentSize ?c' = recentSize c"
      unfolding eq by simp_all
    moreover have "LRU_keys (recent ?c') = remove1 k (LRU_keys (recent c))"
      unfolding eq by (simp add: kr)
    moreover have "\<not> contains (recent ?c') k"
      unfolding eq using d by (simp add: contains_keys kr)
    moreover have "LRU_keys (frequent ?c') = k # LRU_keys (frequent c)"
      unfolding eq by (simp add: kf)
    moreover note TwoQueueCache_Get_recent_entries [OF rec room]
    ultimately show ?thesis using rec cap room by blast
  next
    case miss
    then have "?c' = c" by (rule TwoQueueCache_Get_miss)
    moreover have "fst (TwoQueueCache_Get c k) = (None, False)"
      using miss by (rule fst_TwoQueueCache_Get_miss)
    ultimately show ?thesis using miss cap by simp
  qed
qed

theorem TwoQueueCache_Get_frame_witness:
  "NewTwoQueueCache 4 = Inr example_2Q_new
   \<and> example_2Q_boundary = TwoQueueCache_calls example_2Q_new
        [Op_Put 1 (Some 10), Op_Put 2 (Some 20), Op_Put 3 (Some 30), Op_Put 4 (Some 40),
         Op_Get 2, Op_Get 3, Op_Get 4]
   \<and> \<not> contains (frequent example_2Q_boundary) 1 \<and> contains (recent example_2Q_boundary) 1
   \<and> TwoQueueCache_Len (snd (TwoQueueCache_Get example_2Q_boundary 1))
       = TwoQueueCache_Len example_2Q_boundary
   \<and> LRU_keys (frequent (snd (TwoQueueCache_Get example_2Q_boundary 1)))
       = 1 # LRU_keys (frequent example_2Q_boundary)
   \<and> fst (TwoQueueCache_Get example_2Q_boundary 1) = (Some 10, True)
   \<and> frequent (snd (TwoQueueCache_Get example_2Q_boundary 1))
       = (frequent example_2Q_boundary)\<lparr>evictList :=
            \<lparr>Key = 1, Value = Some 10\<rparr> # evictList (frequent example_2Q_boundary)\<rparr>
   \<and> contains (frequent example_2Q_boundary) 3
   \<and> recent (snd (TwoQueueCache_Get example_2Q_boundary 3)) = recent example_2Q_boundary
   \<and> LRU_keys (frequent (snd (TwoQueueCache_Get example_2Q_boundary 3)))
       = 3 # remove1 3 (LRU_keys (frequent example_2Q_boundary))
   \<and> fst (TwoQueueCache_Get example_2Q_boundary 3) = (Some 30, True)
   \<and> \<not> contains (frequent example_2Q_boundary) 9 \<and> \<not> contains (recent example_2Q_boundary) 9
   \<and> snd (TwoQueueCache_Get example_2Q_boundary 9) = example_2Q_boundary
   \<and> fst (TwoQueueCache_Get example_2Q_boundary 9) = (None, False)"
proof -
  have h1: "\<not> contains (frequent example_2Q_boundary) 1" "contains (recent example_2Q_boundary) 1"
    and h3: "contains (frequent example_2Q_boundary) 3"
    and h9: "\<not> contains (frequent example_2Q_boundary) 9"
      "\<not> contains (recent example_2Q_boundary) 9"
    by (simp_all add: contains_def items_def example_2Q_boundary_def)
  have i1: "items (recent example_2Q_boundary) 1 = Some \<lparr>Key = 1, Value = Some 10\<rparr>"
    and i3: "items (frequent example_2Q_boundary) 3 = Some \<lparr>Key = 3, Value = Some 30\<rparr>"
    by (simp_all add: items_def example_2Q_boundary_def)
  note th = TwoQueueCache_Get_frame
    [OF NewTwoQueueCache_4 example_2Q_boundary_reached [symmetric]]
  from th [of 1] h1
  have a: "TwoQueueCache_Len (snd (TwoQueueCache_Get example_2Q_boundary 1))
       = TwoQueueCache_Len example_2Q_boundary"
    "LRU_keys (frequent (snd (TwoQueueCache_Get example_2Q_boundary 1)))
       = 1 # LRU_keys (frequent example_2Q_boundary)"
    by blast+
  from th [of 1] h1 obtain ele where
    "items (recent example_2Q_boundary) 1 = Some ele"
    "frequent (snd (TwoQueueCache_Get example_2Q_boundary 1))
       = (frequent example_2Q_boundary)\<lparr>evictList :=
            ele # evictList (frequent example_2Q_boundary)\<rparr>"
    "fst (TwoQueueCache_Get example_2Q_boundary 1) = (Value ele, True)"
    by blast
  with i1 have a': "fst (TwoQueueCache_Get example_2Q_boundary 1) = (Some 10, True)"
    "frequent (snd (TwoQueueCache_Get example_2Q_boundary 1))
       = (frequent example_2Q_boundary)\<lparr>evictList :=
            \<lparr>Key = 1, Value = Some 10\<rparr> # evictList (frequent example_2Q_boundary)\<rparr>"
    by simp_all
  from th [of 3] h3
  have b: "recent (snd (TwoQueueCache_Get example_2Q_boundary 3)) = recent example_2Q_boundary"
    "LRU_keys (frequent (snd (TwoQueueCache_Get example_2Q_boundary 3)))
       = 3 # remove1 3 (LRU_keys (frequent example_2Q_boundary))"
    by blast+
  from th [of 3] h3 obtain ele3 where
    "items (frequent example_2Q_boundary) 3 = Some ele3"
    "fst (TwoQueueCache_Get example_2Q_boundary 3) = (Value ele3, True)"
    by blast
  with i3 have b': "fst (TwoQueueCache_Get example_2Q_boundary 3) = (Some 30, True)"
    by simp
  from th [of 9] h9
  have c: "snd (TwoQueueCache_Get example_2Q_boundary 9) = example_2Q_boundary"
    "fst (TwoQueueCache_Get example_2Q_boundary 9) = (None, False)"
    by blast+
  from NewTwoQueueCache_4 example_2Q_boundary_reached [symmetric] h1 h3 h9 a a' b b' c
  show ?thesis by blast
qed

section \<open>The invariant of the ARC cache\<close>

lemma distinct4_1:
  assumes "distinct (A @ B @ C @ D)" and "distinct A'" and "set A' \<subseteq> set A \<union> K"
    and "K \<inter> (set B \<union> set C \<union> set D) = {}"
  shows "distinct (A' @ B @ C @ D)"
  using assms by (simp add: disjoint_iff subset_iff) blast

lemma distinct4_2:
  assumes "distinct (A @ B @ C @ D)" and "distinct B'" and "set B' \<subseteq> set B \<union> K"
    and "K \<inter> (set A \<union> set C \<union> set D) = {}"
  shows "distinct (A @ B' @ C @ D)"
  using assms by (simp add: disjoint_iff subset_iff) blast

lemma distinct4_3:
  assumes "distinct (A @ B @ C @ D)" and "distinct C'" and "set C' \<subseteq> set C \<union> K"
    and "K \<inter> (set A \<union> set B \<union> set D) = {}"
  shows "distinct (A @ B @ C' @ D)"
  using assms by (simp add: disjoint_iff subset_iff) blast

lemma distinct4_4:
  assumes "distinct (A @ B @ C @ D)" and "distinct D'" and "set D' \<subseteq> set D \<union> K"
    and "K \<inter> (set A \<union> set B \<union> set C) = {}"
  shows "distinct (A @ B @ C @ D')"
  using assms by (simp add: disjoint_iff subset_iff) blast

lemma Contains_keys: "Contains c k \<longleftrightarrow> k \<in> set (LRU_keys c)"
  by (simp add: Contains_def contains_keys)

lemma ARCCache_inv_t1:
  assumes "ARCCache_inv c" and "distinct (LRU_keys T)"
    and "set (LRU_keys T) \<subseteq> set (LRU_keys (t1 c)) \<union> K"
    and "K \<inter> (set (LRU_keys (t2 c)) \<union> set (LRU_keys (b1 c)) \<union> set (LRU_keys (b2 c))) = {}"
  shows "ARCCache_inv (c\<lparr>t1 := T\<rparr>)"
proof -
  from assms(1) have "distinct (LRU_keys (t1 c) @ LRU_keys (t2 c) @ LRU_keys (b1 c) @ LRU_keys (b2 c))"
    by (simp add: ARCCache_inv_def)
  from distinct4_1 [OF this assms(2,3,4)] assms(1) show ?thesis
    by (simp add: ARCCache_inv_def)
qed

lemma ARCCache_inv_t2:
  assumes "ARCCache_inv c" and "distinct (LRU_keys T)"
    and "set (LRU_keys T) \<subseteq> set (LRU_keys (t2 c)) \<union> K"
    and "K \<inter> (set (LRU_keys (t1 c)) \<union> set (LRU_keys (b1 c)) \<union> set (LRU_keys (b2 c))) = {}"
  shows "ARCCache_inv (c\<lparr>t2 := T\<rparr>)"
proof -
  from assms(1) have "distinct (LRU_keys (t1 c) @ LRU_keys (t2 c) @ LRU_keys (b1 c) @ LRU_keys (b2 c))"
    by (simp add: ARCCache_inv_def)
  from distinct4_2 [OF this assms(2,3,4)] assms(1) show ?thesis
    by (simp add: ARCCache_inv_def)
qed

lemma ARCCache_inv_b1:
  assumes "ARCCache_inv c" and "distinct (LRU_keys T)"
    and "set (LRU_keys T) \<subseteq> set (LRU_keys (b1 c)) \<union> K"
    and "K \<inter> (set (LRU_keys (t1 c)) \<union> set (LRU_keys (t2 c)) \<union> set (LRU_keys (b2 c))) = {}"
  shows "ARCCache_inv (c\<lparr>b1 := T\<rparr>)"
proof -
  from assms(1) have "distinct (LRU_keys (t1 c) @ LRU_keys (t2 c) @ LRU_keys (b1 c) @ LRU_keys (b2 c))"
    by (simp add: ARCCache_inv_def)
  from distinct4_3 [OF this assms(2,3,4)] assms(1) show ?thesis
    by (simp add: ARCCache_inv_def)
qed

lemma ARCCache_inv_b2:
  assumes "ARCCache_inv c" and "distinct (LRU_keys T)"
    and "set (LRU_keys T) \<subseteq> set (LRU_keys (b2 c)) \<union> K"
    and "K \<inter> (set (LRU_keys (t1 c)) \<union> set (LRU_keys (t2 c)) \<union> set (LRU_keys (b1 c))) = {}"
  shows "ARCCache_inv (c\<lparr>b2 := T\<rparr>)"
proof -
  from assms(1) have "distinct (LRU_keys (t1 c) @ LRU_keys (t2 c) @ LRU_keys (b1 c) @ LRU_keys (b2 c))"
    by (simp add: ARCCache_inv_def)
  from distinct4_4 [OF this assms(2,3,4)] assms(1) show ?thesis
    by (simp add: ARCCache_inv_def)
qed

lemma ARCCache_inv_p:
  "ARCCache_inv c \<Longrightarrow> 0 \<le> x \<Longrightarrow> x \<le> size_ARCCache c \<Longrightarrow> ARCCache_inv (c\<lparr>p := x\<rparr>)"
  by (simp add: ARCCache_inv_def)

lemma ARCCache_inv_distinct:
  assumes "ARCCache_inv c"
  shows "distinct (LRU_keys (t1 c))" "distinct (LRU_keys (t2 c))"
    "distinct (LRU_keys (b1 c))" "distinct (LRU_keys (b2 c))"
  using assms by (simp_all add: ARCCache_inv_def)

lemma ARCCache_inv_disjoint:
  assumes "ARCCache_inv c"
  shows "set (LRU_keys (t1 c)) \<inter> set (LRU_keys (t2 c)) = {}"
    "set (LRU_keys (t1 c)) \<inter> set (LRU_keys (b1 c)) = {}"
    "set (LRU_keys (t1 c)) \<inter> set (LRU_keys (b2 c)) = {}"
    "set (LRU_keys (t2 c)) \<inter> set (LRU_keys (b1 c)) = {}"
    "set (LRU_keys (t2 c)) \<inter> set (LRU_keys (b2 c)) = {}"
    "set (LRU_keys (b1 c)) \<inter> set (LRU_keys (b2 c)) = {}"
  using assms by (auto simp: ARCCache_inv_def)

text \<open>Moving the oldest entry of T1 to B1, and of T2 to B2.\<close>

lemma ARCCache_inv_move_t1:
  assumes inv: "ARCCache_inv c" and ne: "LRU_keys (t1 c) \<noteq> []"
  shows "ARCCache_inv (c\<lparr>t1 := snd (getAndRemoveOldest (t1 c)),
            b1 := LRU_Put (b1 c) (last (LRU_keys (t1 c))) None\<rparr>)"
proof -
  let ?k = "last (LRU_keys (t1 c))"
  let ?T = "snd (getAndRemoveOldest (t1 c))"
  let ?c1 = "c\<lparr>t1 := ?T\<rparr>"
  note d = ARCCache_inv_distinct [OF inv] and dj = ARCCache_inv_disjoint [OF inv]
  have kT: "LRU_keys ?T = butlast (LRU_keys (t1 c))" by (rule keys_getAndRemoveOldest)
  have inv1: "ARCCache_inv ?c1"
    using inv
  proof (rule ARCCache_inv_t1 [where K = "{}"])
    show "distinct (LRU_keys ?T)" unfolding kT using d(1) by (rule distinct_butlast)
    show "set (LRU_keys ?T) \<subseteq> set (LRU_keys (t1 c)) \<union> {}"
      unfolding kT by (auto dest: in_set_butlastD)
  qed simp
  have kin: "?k \<in> set (LRU_keys (t1 c))" using ne by simp
  have knot: "?k \<notin> set (butlast (LRU_keys (t1 c)))"
    using d(1) ne by (rule distinct_butlast_last)
  have "ARCCache_inv (?c1\<lparr>b1 := LRU_Put (b1 ?c1) ?k None\<rparr>)"
    using inv1
  proof (rule ARCCache_inv_b1 [where K = "{?k}"])
    show "distinct (LRU_keys (LRU_Put (b1 ?c1) ?k None))"
      using d(3) by (simp add: distinct_keys_LRU_call [of _ "Op_Put _ _", simplified])
    show "set (LRU_keys (LRU_Put (b1 ?c1) ?k None)) \<subseteq> set (LRU_keys (b1 ?c1)) \<union> {?k}"
      by (auto simp: keys_LRU_Put dest: in_set_butlastD)
    show "{?k} \<inter> (set (LRU_keys (t1 ?c1)) \<union> set (LRU_keys (t2 ?c1))
        \<union> set (LRU_keys (b2 ?c1))) = {}"
      using kin knot dj(1,3) by (auto simp: kT)
  qed
  then show ?thesis by simp
qed

lemma ARCCache_inv_move_t2:
  assumes inv: "ARCCache_inv c" and ne: "LRU_keys (t2 c) \<noteq> []"
  shows "ARCCache_inv (c\<lparr>t2 := snd (getAndRemoveOldest (t2 c)),
            b2 := LRU_Put (b2 c) (last (LRU_keys (t2 c))) None\<rparr>)"
proof -
  let ?k = "last (LRU_keys (t2 c))"
  let ?T = "snd (getAndRemoveOldest (t2 c))"
  let ?c1 = "c\<lparr>t2 := ?T\<rparr>"
  note d = ARCCache_inv_distinct [OF inv] and dj = ARCCache_inv_disjoint [OF inv]
  have kT: "LRU_keys ?T = butlast (LRU_keys (t2 c))" by (rule keys_getAndRemoveOldest)
  have inv1: "ARCCache_inv ?c1"
    using inv
  proof (rule ARCCache_inv_t2 [where K = "{}"])
    show "distinct (LRU_keys ?T)" unfolding kT using d(2) by (rule distinct_butlast)
    show "set (LRU_keys ?T) \<subseteq> set (LRU_keys (t2 c)) \<union> {}"
      unfolding kT by (auto dest: in_set_butlastD)
  qed simp
  have kin: "?k \<in> set (LRU_keys (t2 c))" using ne by simp
  have knot: "?k \<notin> set (butlast (LRU_keys (t2 c)))"
    using d(2) ne by (rule distinct_butlast_last)
  have "ARCCache_inv (?c1\<lparr>b2 := LRU_Put (b2 ?c1) ?k None\<rparr>)"
    using inv1
  proof (rule ARCCache_inv_b2 [where K = "{?k}"])
    show "distinct (LRU_keys (LRU_Put (b2 ?c1) ?k None))"
      using d(4) by (simp add: distinct_keys_LRU_call [of _ "Op_Put _ _", simplified])
    show "set (LRU_keys (LRU_Put (b2 ?c1) ?k None)) \<subseteq> set (LRU_keys (b2 ?c1)) \<union> {?k}"
      by (auto simp: keys_LRU_Put dest: in_set_butlastD)
    show "{?k} \<inter> (set (LRU_keys (t1 ?c1)) \<union> set (LRU_keys (t2 ?c1))
        \<union> set (LRU_keys (b1 ?c1))) = {}"
      using kin knot dj(1,4) by (auto simp: kT)
  qed
  then show ?thesis by simp
qed

lemma p_replace: "p (replace c b) = p c"
  by (simp add: replace_def Let_def)

lemma size_replace: "size_ARCCache (replace c b) = size_ARCCache c"
  by (simp add: replace_def Let_def)

lemma replace_t1_branch:
  assumes "0 < LRU_Len (t1 c)"
    and "p c < LRU_Len (t1 c) \<or> (LRU_Len (t1 c) = p c \<and> b)"
  shows "replace c b = c\<lparr>t1 := snd (getAndRemoveOldest (t1 c)),
            b1 := LRU_Put (b1 c) (last (LRU_keys (t1 c))) None\<rparr>"
proof -
  from assms(1) have ne: "LRU_keys (t1 c) \<noteq> []" by (auto simp: LRU_Len_keys)
  then have "fst (fst (getAndRemoveOldest (t1 c))) = last (LRU_keys (t1 c))"
    by (rule key_getAndRemoveOldest)
  with assms ne show ?thesis
    by (simp add: replace_def GetAndRemoveOldest_def ok_getAndRemoveOldest Let_def)
qed

lemma replace_t2_branch:
  assumes "\<not> (0 < LRU_Len (t1 c)
        \<and> (p c < LRU_Len (t1 c) \<or> (LRU_Len (t1 c) = p c \<and> b)))"
    and "LRU_keys (t2 c) \<noteq> []"
  shows "replace c b = c\<lparr>t2 := snd (getAndRemoveOldest (t2 c)),
            b2 := LRU_Put (b2 c) (last (LRU_keys (t2 c))) None\<rparr>"
proof -
  from assms(2) have "fst (fst (getAndRemoveOldest (t2 c))) = last (LRU_keys (t2 c))"
    by (rule key_getAndRemoveOldest)
  with assms show ?thesis
    by (auto simp: replace_def GetAndRemoveOldest_def ok_getAndRemoveOldest Let_def)
qed

lemma replace_nothing:
  assumes "\<not> (0 < LRU_Len (t1 c)
        \<and> (p c < LRU_Len (t1 c) \<or> (LRU_Len (t1 c) = p c \<and> b)))"
    and "LRU_keys (t2 c) = []"
  shows "replace c b = c"
proof -
  from assms(2) have "evictList (t2 c) = []" by (simp add: LRU_keys_def)
  then have "getAndRemoveOldest (t2 c) = ((0, None, False), t2 c)"
    by (simp add: getAndRemoveOldest_def)
  with assms(1) show ?thesis
    by (auto simp: replace_def GetAndRemoveOldest_def Let_def)
qed

lemma replace_post:
  assumes inv: "ARCCache_inv c"
  shows "ARCCache_inv (replace c b)
     \<and> set (LRU_keys (t1 (replace c b))) \<subseteq> set (LRU_keys (t1 c))
     \<and> set (LRU_keys (t2 (replace c b))) \<subseteq> set (LRU_keys (t2 c))
     \<and> set (LRU_keys (b1 (replace c b))) \<subseteq> set (LRU_keys (b1 c)) \<union> set (LRU_keys (t1 c))
     \<and> set (LRU_keys (b2 (replace c b))) \<subseteq> set (LRU_keys (b2 c)) \<union> set (LRU_keys (t2 c))"
proof -
  consider (one) "0 < LRU_Len (t1 c)" "p c < LRU_Len (t1 c) \<or> (LRU_Len (t1 c) = p c \<and> b)"
    | (two) "\<not> (0 < LRU_Len (t1 c)
        \<and> (p c < LRU_Len (t1 c) \<or> (LRU_Len (t1 c) = p c \<and> b)))" "LRU_keys (t2 c) \<noteq> []"
    | (none) "\<not> (0 < LRU_Len (t1 c)
        \<and> (p c < LRU_Len (t1 c) \<or> (LRU_Len (t1 c) = p c \<and> b)))" "LRU_keys (t2 c) = []"
    by blast
  then show ?thesis
  proof cases
    case one
    from one(1) have ne: "LRU_keys (t1 c) \<noteq> []" by (auto simp: LRU_Len_keys)
    have eq: "replace c b = c\<lparr>t1 := snd (getAndRemoveOldest (t1 c)),
            b1 := LRU_Put (b1 c) (last (LRU_keys (t1 c))) None\<rparr>"
      using one by (rule replace_t1_branch)
    have "set (LRU_keys (LRU_Put (b1 c) (last (LRU_keys (t1 c))) None))
        \<subseteq> insert (last (LRU_keys (t1 c))) (set (LRU_keys (b1 c)))"
      by (auto simp: keys_LRU_Put dest: in_set_butlastD)
    moreover have "last (LRU_keys (t1 c)) \<in> set (LRU_keys (t1 c))" using ne by simp
    ultimately have "set (LRU_keys (LRU_Put (b1 c) (last (LRU_keys (t1 c))) None))
        \<subseteq> set (LRU_keys (b1 c)) \<union> set (LRU_keys (t1 c))"
      by blast
    moreover have "set (LRU_keys (snd (getAndRemoveOldest (t1 c)))) \<subseteq> set (LRU_keys (t1 c))"
      by (auto simp: keys_getAndRemoveOldest dest: in_set_butlastD)
    ultimately show ?thesis
      unfolding eq using ARCCache_inv_move_t1 [OF inv ne] by simp
  next
    case two
    have eq: "replace c b = c\<lparr>t2 := snd (getAndRemoveOldest (t2 c)),
            b2 := LRU_Put (b2 c) (last (LRU_keys (t2 c))) None\<rparr>"
      using two by (rule replace_t2_branch)
    have "set (LRU_keys (LRU_Put (b2 c) (last (LRU_keys (t2 c))) None))
        \<subseteq> insert (last (LRU_keys (t2 c))) (set (LRU_keys (b2 c)))"
      by (auto simp: keys_LRU_Put dest: in_set_butlastD)
    moreover have "last (LRU_keys (t2 c)) \<in> set (LRU_keys (t2 c))" using two(2) by simp
    ultimately have "set (LRU_keys (LRU_Put (b2 c) (last (LRU_keys (t2 c))) None))
        \<subseteq> set (LRU_keys (b2 c)) \<union> set (LRU_keys (t2 c))"
      by blast
    moreover have "set (LRU_keys (snd (getAndRemoveOldest (t2 c)))) \<subseteq> set (LRU_keys (t2 c))"
      by (auto simp: keys_getAndRemoveOldest dest: in_set_butlastD)
    ultimately show ?thesis
      unfolding eq using ARCCache_inv_move_t2 [OF inv two(2)] by simp
  next
    case none
    then have "replace c b = c" by (rule replace_nothing)
    with inv show ?thesis by simp
  qed
qed

text \<open>Taking a key out of T1 and putting it into T2 (a hit in T1, by \<open>Get\<close> or \<open>Put\<close>).\<close>

lemma ARCCache_inv_promote:
  assumes inv: "ARCCache_inv c" and mem: "k \<in> set (LRU_keys (t1 c))"
  shows "ARCCache_inv (c\<lparr>t1 := LRU_Remove (t1 c) k, t2 := LRU_Put (t2 c) k v\<rparr>)"
proof -
  let ?c1 = "c\<lparr>t1 := LRU_Remove (t1 c) k\<rparr>"
  note d = ARCCache_inv_distinct [OF inv] and dj = ARCCache_inv_disjoint [OF inv]
  have inv1: "ARCCache_inv ?c1"
    using inv
  proof (rule ARCCache_inv_t1 [where K = "{}"])
    show "distinct (LRU_keys (LRU_Remove (t1 c) k))"
      using d(1) by (rule distinct_keys_LRU_Remove)
    show "set (LRU_keys (LRU_Remove (t1 c) k)) \<subseteq> set (LRU_keys (t1 c)) \<union> {}"
      using d(1) by (auto simp: set_keys_LRU_Remove)
  qed simp
  have "ARCCache_inv (?c1\<lparr>t2 := LRU_Put (t2 ?c1) k v\<rparr>)"
    using inv1
  proof (rule ARCCache_inv_t2 [where K = "{k}"])
    show "distinct (LRU_keys (LRU_Put (t2 ?c1) k v))"
      using d(2) by (simp add: distinct_keys_LRU_Put)
    show "set (LRU_keys (LRU_Put (t2 ?c1) k v)) \<subseteq> set (LRU_keys (t2 ?c1)) \<union> {k}"
      using set_keys_LRU_Put [of "t2 ?c1" k v] by auto
    show "{k} \<inter> (set (LRU_keys (t1 ?c1)) \<union> set (LRU_keys (b1 ?c1))
        \<union> set (LRU_keys (b2 ?c1))) = {}"
      using mem d(1) dj(2,3) by (auto simp: set_keys_LRU_Remove)
  qed
  then show ?thesis by simp
qed

lemma ARCCache_inv_touch_t2:
  assumes inv: "ARCCache_inv c" and T: "set (LRU_keys T) = set (LRU_keys (t2 c))"
    "distinct (LRU_keys T)"
  shows "ARCCache_inv (c\<lparr>t2 := T\<rparr>)"
  using inv T(2)
  by (rule ARCCache_inv_t2 [where K = "{}"]) (simp_all add: T(1))

lemma ARCCache_inv_Get:
  assumes inv: "ARCCache_inv c"
  shows "ARCCache_inv (snd (ARCCache_Get c k))"
proof (cases "contains (t1 c) k")
  case True
  then have "snd (ARCCache_Get c k)
      = c\<lparr>t1 := LRU_Remove (t1 c) k, t2 := LRU_Put (t2 c) k (fst (LRU_Peek (t1 c) k))\<rparr>"
    by (simp add: ARCCache_Get_def found_LRU_Peek Let_def)
  moreover from True have "k \<in> set (LRU_keys (t1 c))" by (simp add: contains_keys)
  ultimately show ?thesis using ARCCache_inv_promote [OF inv] by simp
next
  case False
  then have eq: "snd (ARCCache_Get c k) = c\<lparr>t2 := snd (LRU_Get (t2 c) k)\<rparr>"
    by (simp add: ARCCache_Get_def found_LRU_Peek)
  have "ARCCache_inv (c\<lparr>t2 := snd (LRU_Get (t2 c) k)\<rparr>)"
    using inv set_keys_LRU_Get
      distinct_keys_LRU_Get [OF ARCCache_inv_distinct(2) [OF inv]]
    by (rule ARCCache_inv_touch_t2)
  then show ?thesis unfolding eq .
qed

lemma ARCCache_inv_insert_t2:
  assumes inv: "ARCCache_inv c"
    and new: "k \<notin> set (LRU_keys (t1 c))" "k \<notin> set (LRU_keys (b1 c))"
      "k \<notin> set (LRU_keys (b2 c))"
  shows "ARCCache_inv (c\<lparr>t2 := LRU_Put (t2 c) k v\<rparr>)"
  using inv
proof (rule ARCCache_inv_t2 [where K = "{k}"])
  show "distinct (LRU_keys (LRU_Put (t2 c) k v))"
    using ARCCache_inv_distinct(2) [OF inv] by (rule distinct_keys_LRU_Put)
  show "set (LRU_keys (LRU_Put (t2 c) k v)) \<subseteq> set (LRU_keys (t2 c)) \<union> {k}"
    using set_keys_LRU_Put [of "t2 c" k v] by auto
  show "{k} \<inter> (set (LRU_keys (t1 c)) \<union> set (LRU_keys (b1 c)) \<union> set (LRU_keys (b2 c))) = {}"
    using new by simp
qed

lemma ARCCache_inv_remove_b1:
  assumes inv: "ARCCache_inv c"
  shows "ARCCache_inv (c\<lparr>b1 := LRU_Remove (b1 c) k\<rparr>)"
  using inv
proof (rule ARCCache_inv_b1 [where K = "{}"])
  show "distinct (LRU_keys (LRU_Remove (b1 c) k))"
    using ARCCache_inv_distinct(3) [OF inv] by (rule distinct_keys_LRU_Remove)
  show "set (LRU_keys (LRU_Remove (b1 c) k)) \<subseteq> set (LRU_keys (b1 c)) \<union> {}"
    using ARCCache_inv_distinct(3) [OF inv] by (auto simp: set_keys_LRU_Remove)
qed simp

lemma ARCCache_inv_remove_b2:
  assumes inv: "ARCCache_inv c"
  shows "ARCCache_inv (c\<lparr>b2 := LRU_Remove (b2 c) k\<rparr>)"
  using inv
proof (rule ARCCache_inv_b2 [where K = "{}"])
  show "distinct (LRU_keys (LRU_Remove (b2 c) k))"
    using ARCCache_inv_distinct(4) [OF inv] by (rule distinct_keys_LRU_Remove)
  show "set (LRU_keys (LRU_Remove (b2 c) k)) \<subseteq> set (LRU_keys (b2 c)) \<union> {}"
    using ARCCache_inv_distinct(4) [OF inv] by (auto simp: set_keys_LRU_Remove)
qed simp

lemma ARCCache_inv_remove_t1:
  assumes inv: "ARCCache_inv c"
  shows "ARCCache_inv (c\<lparr>t1 := LRU_Remove (t1 c) k\<rparr>)"
  using inv
proof (rule ARCCache_inv_t1 [where K = "{}"])
  show "distinct (LRU_keys (LRU_Remove (t1 c) k))"
    using ARCCache_inv_distinct(1) [OF inv] by (rule distinct_keys_LRU_Remove)
  show "set (LRU_keys (LRU_Remove (t1 c) k)) \<subseteq> set (LRU_keys (t1 c)) \<union> {}"
    using ARCCache_inv_distinct(1) [OF inv] by (auto simp: set_keys_LRU_Remove)
qed simp

lemma ARCCache_inv_remove_t2:
  assumes inv: "ARCCache_inv c"
  shows "ARCCache_inv (c\<lparr>t2 := LRU_Remove (t2 c) k\<rparr>)"
  using inv
proof (rule ARCCache_inv_t2 [where K = "{}"])
  show "distinct (LRU_keys (LRU_Remove (t2 c) k))"
    using ARCCache_inv_distinct(2) [OF inv] by (rule distinct_keys_LRU_Remove)
  show "set (LRU_keys (LRU_Remove (t2 c) k)) \<subseteq> set (LRU_keys (t2 c)) \<union> {}"
    using ARCCache_inv_distinct(2) [OF inv] by (auto simp: set_keys_LRU_Remove)
qed simp

lemma replace_if_post:
  assumes inv: "ARCCache_inv c"
  shows "ARCCache_inv (if q then replace c b else c)
     \<and> p (if q then replace c b else c) = p c
     \<and> size_ARCCache (if q then replace c b else c) = size_ARCCache c
     \<and> set (LRU_keys (t1 (if q then replace c b else c))) \<subseteq> set (LRU_keys (t1 c))
     \<and> set (LRU_keys (t2 (if q then replace c b else c))) \<subseteq> set (LRU_keys (t2 c))
     \<and> set (LRU_keys (b1 (if q then replace c b else c)))
         \<subseteq> set (LRU_keys (b1 c)) \<union> set (LRU_keys (t1 c))
     \<and> set (LRU_keys (b2 (if q then replace c b else c)))
         \<subseteq> set (LRU_keys (b2 c)) \<union> set (LRU_keys (t2 c))"
proof (cases q)
  case True
  with replace_post [OF inv, of b] show ?thesis
    by (simp add: p_replace size_replace)
next
  case False
  with inv show ?thesis by simp
qed

lemma go_div_nonneg: "0 \<le> a \<Longrightarrow> 0 < b \<Longrightarrow> go_div a b = Inr (a div b)"
  by (cases "a = 0") (simp_all add: go_div_def)

lemma delta_max:
  assumes "0 \<le> a" and "0 < b"
  shows "(if a > b then a div b else 1) = max 1 (a div (b::int))"
proof (cases "a > b")
  case True
  with assms have "1 \<le> a div b"
    by (simp add: pos_imp_zdiv_pos_iff int_one_le_iff_zero_less)
  with True show ?thesis by simp
next
  case False
  with assms have "a div b \<le> 1"
    using zdiv_mono1 [of a b b] by simp
  with False show ?thesis by simp
qed

lemma ARCCache_Put_t1_hit:
  "Contains (t1 c) k \<Longrightarrow>
   ARCCache_Put c k v = Inr (c\<lparr>t1 := LRU_Remove (t1 c) k, t2 := LRU_Put (t2 c) k v\<rparr>)"
  by (simp add: ARCCache_Put_def Let_def)

lemma ARCCache_Put_t2_hit:
  "\<not> Contains (t1 c) k \<Longrightarrow> Contains (t2 c) k \<Longrightarrow>
   ARCCache_Put c k v = Inr (c\<lparr>t2 := LRU_Put (t2 c) k v\<rparr>)"
  by (simp add: ARCCache_Put_def)

lemma ARCCache_Put_b1_hit:
  assumes "\<not> Contains (t1 c) k" "\<not> Contains (t2 c) k" "Contains (b1 c) k"
  defines "c1 \<equiv> c\<lparr>p := min (size_ARCCache c)
                     (p c + max 1 (LRU_Len (b2 c) div LRU_Len (b1 c)))\<rparr>"
  defines "c2 \<equiv> (if size_ARCCache c \<le> LRU_Len (t1 c) + LRU_Len (t2 c)
                  then replace c1 False else c1)"
  shows "ARCCache_Put c k v
     = Inr (c2\<lparr>b1 := LRU_Remove (b1 c2) k, t2 := LRU_Put (t2 c2) k v\<rparr>)"
proof -
  let ?d = "max 1 (LRU_Len (b2 c) div LRU_Len (b1 c))"
  have pos: "0 < LRU_Len (b1 c)" using assms(3) by (rule Contains_Len)
  have nn: "0 \<le> LRU_Len (b2 c)" by (simp add: LRU_Len_def)
  have d: "(if LRU_Len (b2 c) > LRU_Len (b1 c)
        then go_div (LRU_Len (b2 c)) (LRU_Len (b1 c)) else Inr 1) = Inr ?d"
    using delta_max [OF nn pos] go_div_nonneg [OF nn pos]
    by (simp split: if_splits)
  have upd: "(if size_ARCCache c \<le> p c + ?d then c\<lparr>p := size_ARCCache c\<rparr>
        else c\<lparr>p := p c + ?d\<rparr>) = c1"
    by (simp add: c1_def min_def)
  show ?thesis
    using assms(1-3) unfolding ARCCache_Put_def
    by (simp add: Let_def d upd c2_def c1_def)
qed

lemma ARCCache_Put_b2_hit:
  assumes "\<not> Contains (t1 c) k" "\<not> Contains (t2 c) k" "\<not> Contains (b1 c) k"
    "Contains (b2 c) k"
  defines "c1 \<equiv> c\<lparr>p := max 0 (p c - max 1 (LRU_Len (b1 c) div LRU_Len (b2 c)))\<rparr>"
  defines "c2 \<equiv> (if size_ARCCache c \<le> LRU_Len (t1 c) + LRU_Len (t2 c)
                  then replace c1 True else c1)"
  shows "ARCCache_Put c k v
     = Inr (c2\<lparr>b2 := LRU_Remove (b2 c2) k, t2 := LRU_Put (t2 c2) k v\<rparr>)"
proof -
  let ?d = "max 1 (LRU_Len (b1 c) div LRU_Len (b2 c))"
  have pos: "0 < LRU_Len (b2 c)" using assms(4) by (rule Contains_Len)
  have nn: "0 \<le> LRU_Len (b1 c)" by (simp add: LRU_Len_def)
  have d: "(if LRU_Len (b1 c) > LRU_Len (b2 c)
        then go_div (LRU_Len (b1 c)) (LRU_Len (b2 c)) else Inr 1) = Inr ?d"
    using delta_max [OF nn pos] go_div_nonneg [OF nn pos]
    by (simp split: if_splits)
  have upd: "(if p c \<le> ?d then c\<lparr>p := 0\<rparr> else c\<lparr>p := p c - ?d\<rparr>) = c1"
    by (simp add: c1_def max_def)
  show ?thesis
    using assms(1-4) unfolding ARCCache_Put_def
    by (simp add: Let_def d upd c2_def c1_def)
qed

lemma ARCCache_Put_new:
  assumes "\<not> Contains (t1 c) k" "\<not> Contains (t2 c) k" "\<not> Contains (b1 c) k"
    "\<not> Contains (b2 c) k"
  defines "c1 \<equiv> (if size_ARCCache c \<le> LRU_Len (t1 c) + LRU_Len (t2 c)
                  then replace c False else c)"
  defines "c2 \<equiv> (if size_ARCCache c1 - p c1 < LRU_Len (b1 c1)
                  then c1\<lparr>b1 := RemoveOldest (b1 c1)\<rparr> else c1)"
  defines "c3 \<equiv> (if p c2 < LRU_Len (b2 c2) then c2\<lparr>b2 := RemoveOldest (b2 c2)\<rparr> else c2)"
  shows "ARCCache_Put c k v = Inr (c3\<lparr>t1 := LRU_Put (t1 c3) k v\<rparr>)"
  using assms(1-4) unfolding ARCCache_Put_def
  by (simp add: Let_def c1_def c2_def c3_def)

lemma ARCCache_inv_Put:
  assumes inv: "ARCCache_inv c" and put: "ARCCache_Put c k v = Inr c'"
  shows "ARCCache_inv c'"
proof -
  note d = ARCCache_inv_distinct [OF inv] and dj = ARCCache_inv_disjoint [OF inv]
  from inv have psz: "0 < size_ARCCache c" "0 \<le> p c" "p c \<le> size_ARCCache c"
    by (simp_all add: ARCCache_inv_def)
  consider (t1) "Contains (t1 c) k"
    | (t2) "\<not> Contains (t1 c) k" "Contains (t2 c) k"
    | (b1) "\<not> Contains (t1 c) k" "\<not> Contains (t2 c) k" "Contains (b1 c) k"
    | (b2) "\<not> Contains (t1 c) k" "\<not> Contains (t2 c) k" "\<not> Contains (b1 c) k"
        "Contains (b2 c) k"
    | (new) "\<not> Contains (t1 c) k" "\<not> Contains (t2 c) k" "\<not> Contains (b1 c) k"
        "\<not> Contains (b2 c) k"
    by blast
  then show ?thesis
  proof cases
    case t1
    then have mem: "k \<in> set (LRU_keys (t1 c))" by (simp add: Contains_keys)
    from put ARCCache_Put_t1_hit [OF t1, of v]
    have "c' = c\<lparr>t1 := LRU_Remove (t1 c) k, t2 := LRU_Put (t2 c) k v\<rparr>" by simp
    with ARCCache_inv_promote [OF inv mem, of v] show ?thesis by simp
  next
    case t2
    from put ARCCache_Put_t2_hit [OF t2, of v]
    have eq: "c' = c\<lparr>t2 := LRU_Put (t2 c) k v\<rparr>" by simp
    from t2(2) have mem: "k \<in> set (LRU_keys (t2 c))" by (simp add: Contains_keys)
    have "ARCCache_inv (c\<lparr>t2 := LRU_Put (t2 c) k v\<rparr>)"
      using inv set_keys_LRU_Put_present [OF mem] distinct_keys_LRU_Put [OF d(2)]
      by (rule ARCCache_inv_touch_t2)
    then show ?thesis unfolding eq .
  next
    case b1
    let ?c1 = "c\<lparr>p := min (size_ARCCache c)
                     (p c + max 1 (LRU_Len (b2 c) div LRU_Len (b1 c)))\<rparr>"
    let ?c2 = "if size_ARCCache c \<le> LRU_Len (t1 c) + LRU_Len (t2 c)
                  then replace ?c1 False else ?c1"
    let ?c3 = "?c2\<lparr>b1 := LRU_Remove (b1 ?c2) k\<rparr>"
    from put ARCCache_Put_b1_hit [OF b1, of v]
    have eq: "c' = ?c3\<lparr>t2 := LRU_Put (t2 ?c3) k v\<rparr>" by simp
    have inv1: "ARCCache_inv ?c1"
      using inv psz by (intro ARCCache_inv_p) simp_all
    note post = replace_if_post [OF inv1,
        of "size_ARCCache c \<le> LRU_Len (t1 c) + LRU_Len (t2 c)" False]
    from post have inv2: "ARCCache_inv ?c2" by blast
    have inv3: "ARCCache_inv ?c3" using inv2 by (rule ARCCache_inv_remove_b1)
    from post have sub: "set (LRU_keys (t1 ?c2)) \<subseteq> set (LRU_keys (t1 c))"
      "set (LRU_keys (b2 ?c2)) \<subseteq> set (LRU_keys (b2 c)) \<union> set (LRU_keys (t2 c))"
      by simp_all
    from b1 dj(6) have nk: "k \<notin> set (LRU_keys (t1 c))" "k \<notin> set (LRU_keys (t2 c))"
      "k \<notin> set (LRU_keys (b2 c))"
      by (auto simp: Contains_keys)
    have "ARCCache_inv (?c3\<lparr>t2 := LRU_Put (t2 ?c3) k v\<rparr>)"
      using inv3
    proof (rule ARCCache_inv_insert_t2)
      show "k \<notin> set (LRU_keys (t1 ?c3))" using sub(1) nk(1) by auto
      show "k \<notin> set (LRU_keys (b1 ?c3))"
        using ARCCache_inv_distinct(3) [OF inv2] by (simp add: set_keys_LRU_Remove)
      show "k \<notin> set (LRU_keys (b2 ?c3))" using sub(2) nk(2,3) by auto
    qed
    then show ?thesis unfolding eq .
  next
    case b2
    let ?c1 = "c\<lparr>p := max 0 (p c - max 1 (LRU_Len (b1 c) div LRU_Len (b2 c)))\<rparr>"
    let ?c2 = "if size_ARCCache c \<le> LRU_Len (t1 c) + LRU_Len (t2 c)
                  then replace ?c1 True else ?c1"
    let ?c3 = "?c2\<lparr>b2 := LRU_Remove (b2 ?c2) k\<rparr>"
    from put ARCCache_Put_b2_hit [OF b2, of v]
    have eq: "c' = ?c3\<lparr>t2 := LRU_Put (t2 ?c3) k v\<rparr>" by simp
    have inv1: "ARCCache_inv ?c1"
      using inv psz by (intro ARCCache_inv_p) simp_all
    note post = replace_if_post [OF inv1,
        of "size_ARCCache c \<le> LRU_Len (t1 c) + LRU_Len (t2 c)" True]
    from post have inv2: "ARCCache_inv ?c2" by blast
    have inv3: "ARCCache_inv ?c3" using inv2 by (rule ARCCache_inv_remove_b2)
    from post have sub: "set (LRU_keys (t1 ?c2)) \<subseteq> set (LRU_keys (t1 c))"
      "set (LRU_keys (b1 ?c2)) \<subseteq> set (LRU_keys (b1 c)) \<union> set (LRU_keys (t1 c))"
      by simp_all
    from b2 have nk: "k \<notin> set (LRU_keys (t1 c))" "k \<notin> set (LRU_keys (t2 c))"
      "k \<notin> set (LRU_keys (b1 c))"
      by (auto simp: Contains_keys)
    have "ARCCache_inv (?c3\<lparr>t2 := LRU_Put (t2 ?c3) k v\<rparr>)"
      using inv3
    proof (rule ARCCache_inv_insert_t2)
      show "k \<notin> set (LRU_keys (t1 ?c3))" using sub(1) nk(1) by auto
      show "k \<notin> set (LRU_keys (b1 ?c3))" using sub(2) nk(1,3) by auto
      show "k \<notin> set (LRU_keys (b2 ?c3))"
        using ARCCache_inv_distinct(4) [OF inv2] by (simp add: set_keys_LRU_Remove)
    qed
    then show ?thesis unfolding eq .
  next
    case new
    define c1 where "c1 = (if size_ARCCache c \<le> LRU_Len (t1 c) + LRU_Len (t2 c)
                  then replace c False else c)"
    define c2 where "c2 = (if size_ARCCache c1 - p c1 < LRU_Len (b1 c1)
                  then c1\<lparr>b1 := RemoveOldest (b1 c1)\<rparr> else c1)"
    define c3 where "c3 = (if p c2 < LRU_Len (b2 c2)
                  then c2\<lparr>b2 := RemoveOldest (b2 c2)\<rparr> else c2)"
    have eq: "c' = c3\<lparr>t1 := LRU_Put (t1 c3) k v\<rparr>"
      unfolding c3_def c2_def c1_def using put ARCCache_Put_new [OF new, of v] by simp
    note post = replace_if_post [OF inv,
        of "size_ARCCache c \<le> LRU_Len (t1 c) + LRU_Len (t2 c)" False, folded c1_def]
    from post have inv1: "ARCCache_inv c1" by blast
    from post have sub1: "set (LRU_keys (t1 c1)) \<subseteq> set (LRU_keys (t1 c))"
      "set (LRU_keys (t2 c1)) \<subseteq> set (LRU_keys (t2 c))"
      "set (LRU_keys (b1 c1)) \<subseteq> set (LRU_keys (b1 c)) \<union> set (LRU_keys (t1 c))"
      "set (LRU_keys (b2 c1)) \<subseteq> set (LRU_keys (b2 c)) \<union> set (LRU_keys (t2 c))"
      by blast+
    have bl: "set (LRU_keys (RemoveOldest x)) \<subseteq> set (LRU_keys x)" for x :: "'a LRU"
      by (auto simp: RemoveOldest_def keys_removeOldest dest: in_set_butlastD)
    have bd: "distinct (LRU_keys (RemoveOldest x))" if "distinct (LRU_keys x)"
      for x :: "'a LRU"
      using that by (simp add: RemoveOldest_def keys_removeOldest distinct_butlast)
    have trim1: "ARCCache_inv (c1\<lparr>b1 := RemoveOldest (b1 c1)\<rparr>)"
      using inv1
    proof (rule ARCCache_inv_b1 [where K = "{}"])
      show "distinct (LRU_keys (RemoveOldest (b1 c1)))"
        using ARCCache_inv_distinct(3) [OF inv1] by (rule bd)
      show "set (LRU_keys (RemoveOldest (b1 c1))) \<subseteq> set (LRU_keys (b1 c1)) \<union> {}"
        using bl [of "b1 c1"] by simp
    qed simp
    have inv2: "ARCCache_inv c2"
      unfolding c2_def using inv1 trim1 by simp
    have t2_2: "t2 c2 = t2 c1" and b2_2: "b2 c2 = b2 c1"
      unfolding c2_def by simp_all
    have b1_2: "set (LRU_keys (b1 c2)) \<subseteq> set (LRU_keys (b1 c1))"
      unfolding c2_def using bl [of "b1 c1"] by simp
    have trim2: "ARCCache_inv (c2\<lparr>b2 := RemoveOldest (b2 c2)\<rparr>)"
      using inv2
    proof (rule ARCCache_inv_b2 [where K = "{}"])
      show "distinct (LRU_keys (RemoveOldest (b2 c2)))"
        using ARCCache_inv_distinct(4) [OF inv2] by (rule bd)
      show "set (LRU_keys (RemoveOldest (b2 c2))) \<subseteq> set (LRU_keys (b2 c2)) \<union> {}"
        using bl [of "b2 c2"] by simp
    qed simp
    have inv3: "ARCCache_inv c3"
      unfolding c3_def using inv2 trim2 by simp
    have t2_3: "t2 c3 = t2 c2" and b1_3: "b1 c3 = b1 c2"
      unfolding c3_def by simp_all
    have b2_3: "set (LRU_keys (b2 c3)) \<subseteq> set (LRU_keys (b2 c2))"
      unfolding c3_def using bl [of "b2 c2"] by simp
    from new have nk: "k \<notin> set (LRU_keys (t1 c))" "k \<notin> set (LRU_keys (t2 c))"
      "k \<notin> set (LRU_keys (b1 c))" "k \<notin> set (LRU_keys (b2 c))"
      by (auto simp: Contains_keys)
    have "ARCCache_inv (c3\<lparr>t1 := LRU_Put (t1 c3) k v\<rparr>)"
      using inv3
    proof (rule ARCCache_inv_t1 [where K = "{k}"])
      show "distinct (LRU_keys (LRU_Put (t1 c3) k v))"
        using ARCCache_inv_distinct(1) [OF inv3] by (rule distinct_keys_LRU_Put)
      show "set (LRU_keys (LRU_Put (t1 c3) k v)) \<subseteq> set (LRU_keys (t1 c3)) \<union> {k}"
        using set_keys_LRU_Put [of "t1 c3" k v] by auto
      have "k \<notin> set (LRU_keys (t2 c3))"
        unfolding t2_3 t2_2 using sub1(2) nk(2) by blast
      moreover have "k \<notin> set (LRU_keys (b1 c3))"
        unfolding b1_3 using b1_2 sub1(3) nk(1,3) by blast
      moreover have "k \<notin> set (LRU_keys (b2 c3))"
        using b2_3 sub1(4) nk(2,4) unfolding b2_2 by blast
      ultimately show "{k} \<inter> (set (LRU_keys (t2 c3)) \<union> set (LRU_keys (b1 c3))
          \<union> set (LRU_keys (b2 c3))) = {}"
        by simp
    qed
    then show ?thesis unfolding eq .
  qed
qed

lemma ARCCache_inv_Remove:
  assumes inv: "ARCCache_inv c"
  shows "ARCCache_inv (ARCCache_Remove c k)"
proof -
  have r: "snd (Remove_removed x k) = LRU_Remove x k" for x :: "'a LRU"
    by (simp add: Remove_removed_def LRU_Remove_def)
  show ?thesis
    unfolding ARCCache_Remove_def r
    using inv ARCCache_inv_remove_t1 [OF inv, of k] ARCCache_inv_remove_t2 [OF inv, of k]
      ARCCache_inv_remove_b1 [OF inv, of k] ARCCache_inv_remove_b2 [OF inv, of k]
    by simp
qed

lemma ARCCache_inv_Purge: "ARCCache_inv c \<Longrightarrow> ARCCache_inv (ARCCache_Purge c)"
  by (simp add: ARCCache_inv_def ARCCache_Purge_def keys_LRU_Purge)

lemma ARCCache_inv_call:
  "ARCCache_inv c \<Longrightarrow> ARCCache_call c x = Inr c' \<Longrightarrow> ARCCache_inv c'"
  by (cases x)
     (auto simp: ARCCache_inv_Get ARCCache_inv_Remove ARCCache_inv_Purge
        intro: ARCCache_inv_Put)

lemma ARCCache_inv_calls:
  "ARCCache_inv c \<Longrightarrow> ARCCache_calls c ops = Inr c' \<Longrightarrow> ARCCache_inv c'"
proof (induction ops arbitrary: c)
  case Nil
  then show ?case by simp
next
  case (Cons x xs)
  from Cons.prems(2) obtain c1 where step: "ARCCache_call c x = Inr c1"
    and rest: "ARCCache_calls c1 xs = Inr c'"
    by (auto split: sum.splits)
  from Cons.prems(1) step have "ARCCache_inv c1" by (rule ARCCache_inv_call)
  then show ?case using rest by (rule Cons.IH)
qed

lemma NewARC_inv: "NewARC n = Inr c \<Longrightarrow> ARCCache_inv c"
  by (auto simp: NewARC_def NewLRU_def ARCCache_inv_def LRU_keys_def split: if_splits)

lemma NewARC_2: "NewARC 2 = Inr example_ARC_new"
  by (simp add: NewARC_def NewLRU_def example_ARC_new_def)

lemma example_ARC_b1_reached:
  "ARCCache_calls example_ARC_new
     [Op_Put 1 (Some 10), Op_Get 1, Op_Put 2 (Some 20), Op_Put 3 (Some 30)]
   = Inr example_ARC_b1"
  by (simp add: ARC_unfold example_ARC_new_def example_ARC_b1_def)

lemma example_ARC_b2_reached:
  "ARCCache_calls example_ARC_new
     [Op_Put 1 (Some 10), Op_Get 1, Op_Put 2 (Some 20), Op_Put 3 (Some 30), Op_Put 2 (Some 21)]
   = Inr example_ARC_b2"
  by (simp add: ARC_unfold example_ARC_new_def example_ARC_b2_def)

lemma ARCCache_Put_example_b1:
  "ARCCache_Put example_ARC_b1 2 (Some 21) = Inr example_ARC_b2"
  by (simp add: ARC_unfold example_ARC_b1_def example_ARC_b2_def)

lemma ARCCache_Put_example_b2:
  "ARCCache_Put example_ARC_b2 1 (Some 11)
   = Inr \<lparr>size_ARCCache = 2, p = 0,
      t1 = \<lparr>size_LRU = 2, evictList = []\<rparr>,
      b1 = \<lparr>size_LRU = 2, evictList = [\<lparr>Key = 3, Value = None\<rparr>]\<rparr>,
      t2 = \<lparr>size_LRU = 2, evictList =
         [\<lparr>Key = 1, Value = Some 11\<rparr>, \<lparr>Key = 2, Value = Some 21\<rparr>]\<rparr>,
      b2 = \<lparr>size_LRU = 2, evictList = []\<rparr>\<rparr>"
  by (simp add: ARC_unfold example_ARC_b2_def)

lemma p_ARCCache_Put_b1_hit:
  assumes "\<not> Contains (t1 c) k" "\<not> Contains (t2 c) k" "Contains (b1 c) k"
    and "ARCCache_Put c k v = Inr c'"
  shows "p c' = min (size_ARCCache c) (p c + max 1 (LRU_Len (b2 c) div LRU_Len (b1 c)))"
  using ARCCache_Put_b1_hit [OF assms(1-3), of v] assms(4)
  by (auto simp: p_replace)

lemma p_ARCCache_Put_b2_hit:
  assumes "\<not> Contains (t1 c) k" "\<not> Contains (t2 c) k" "\<not> Contains (b1 c) k"
    "Contains (b2 c) k"
    and "ARCCache_Put c k v = Inr c'"
  shows "p c' = max 0 (p c - max 1 (LRU_Len (b1 c) div LRU_Len (b2 c)))"
  using ARCCache_Put_b2_hit [OF assms(1-4), of v] assms(5)
  by (auto simp: p_replace)

section \<open>Claims about reachable states of the ARC cache\<close>

text \<open>
  C6. Ghost hits tune \<open>p\<close>, in every state \<open>c\<close> that a cache built by \<open>NewARC\<close>
  reaches. \<open>Put\<close> returns normally. When B1 contains the key, the new \<open>p\<close> is
  \<open>min(size, p + delta)\<close> with \<open>delta = max(1, len(B2) div len(B1))\<close>: it is larger than
  the old \<open>p\<close> when that was below \<open>size\<close>, and stays at \<open>size\<close> otherwise. When B2
  contains the key, the new \<open>p\<close> is \<open>max(0, p - delta)\<close> with
  \<open>delta = max(1, len(B1) div len(B2))\<close>: it is smaller than the old \<open>p\<close> when that was
  above 0, and stays at 0 otherwise.
\<close>

theorem ARC_ghost_hit_tuning:
  assumes "NewARC n = Inr c0" and "ARCCache_calls c0 ops = Inr c"
  shows "\<exists>c'. ARCCache_Put c k v = Inr c'
     \<and> (Contains (b1 c) k \<longrightarrow>
          p c' = min (size_ARCCache c) (p c + max 1 (LRU_Len (b2 c) div LRU_Len (b1 c)))
          \<and> (p c < size_ARCCache c \<longrightarrow> p c < p c')
          \<and> (p c = size_ARCCache c \<longrightarrow> p c' = p c))
     \<and> (Contains (b2 c) k \<longrightarrow>
          p c' = max 0 (p c - max 1 (LRU_Len (b1 c) div LRU_Len (b2 c)))
          \<and> (0 < p c \<longrightarrow> p c' < p c)
          \<and> (p c = 0 \<longrightarrow> p c' = p c))"
proof -
  have inv: "ARCCache_inv c"
    using NewARC_inv [OF assms(1)] assms(2) by (rule ARCCache_inv_calls)
  then have pb: "0 \<le> p c" "p c \<le> size_ARCCache c"
    by (simp_all add: ARCCache_inv_def)
  note dj = ARCCache_inv_disjoint [OF inv]
  obtain c' where put: "ARCCache_Put c k v = Inr c'"
    using ARCCache_Put_Inr by blast
  have hit1: "p c' = min (size_ARCCache c) (p c + max 1 (LRU_Len (b2 c) div LRU_Len (b1 c)))
          \<and> (p c < size_ARCCache c \<longrightarrow> p c < p c')
          \<and> (p c = size_ARCCache c \<longrightarrow> p c' = p c)"
    if h: "Contains (b1 c) k"
  proof -
    from h dj(2,4) have "\<not> Contains (t1 c) k" "\<not> Contains (t2 c) k"
      by (auto simp: Contains_keys)
    from p_ARCCache_Put_b1_hit [OF this h put] pb show ?thesis
      by auto
  qed
  have hit2: "p c' = max 0 (p c - max 1 (LRU_Len (b1 c) div LRU_Len (b2 c)))
          \<and> (0 < p c \<longrightarrow> p c' < p c)
          \<and> (p c = 0 \<longrightarrow> p c' = p c)"
    if h: "Contains (b2 c) k"
  proof -
    from h dj(3,5,6) have "\<not> Contains (t1 c) k" "\<not> Contains (t2 c) k" "\<not> Contains (b1 c) k"
      by (auto simp: Contains_keys)
    from p_ARCCache_Put_b2_hit [OF this h put] pb show ?thesis
      by auto
  qed
  from put hit1 hit2 show ?thesis by blast
qed

theorem ARC_ghost_hit_tuning_witness:
  "NewARC 2 = Inr example_ARC_new
   \<and> ARCCache_calls example_ARC_new
        [Op_Put 1 (Some 10), Op_Get 1, Op_Put 2 (Some 20), Op_Put 3 (Some 30)]
       = Inr example_ARC_b1
   \<and> Contains (b1 example_ARC_b1) 2 \<and> p example_ARC_b1 = 0
   \<and> (\<exists>c'. ARCCache_Put example_ARC_b1 2 (Some 21) = Inr c' \<and> p c' = 1)
   \<and> ARCCache_calls example_ARC_new
        [Op_Put 1 (Some 10), Op_Get 1, Op_Put 2 (Some 20), Op_Put 3 (Some 30),
         Op_Put 2 (Some 21)]
       = Inr example_ARC_b2
   \<and> Contains (b2 example_ARC_b2) 1 \<and> p example_ARC_b2 = 1
   \<and> (\<exists>c'. ARCCache_Put example_ARC_b2 1 (Some 11) = Inr c' \<and> p c' = 0)"
proof -
  have h1: "Contains (b1 example_ARC_b1) 2" "p example_ARC_b1 = 0"
      "size_ARCCache example_ARC_b1 = 2"
      "LRU_Len (b1 example_ARC_b1) = 1" "LRU_Len (b2 example_ARC_b1) = 0"
    by (simp_all add: Contains_def contains_def items_def LRU_Len_def example_ARC_b1_def)
  have h2: "Contains (b2 example_ARC_b2) 1" "p example_ARC_b2 = 1"
      "size_ARCCache example_ARC_b2 = 2"
      "LRU_Len (b1 example_ARC_b2) = 0" "LRU_Len (b2 example_ARC_b2) = 1"
    by (simp_all add: Contains_def contains_def items_def LRU_Len_def example_ARC_b2_def)
  from ARC_ghost_hit_tuning [OF NewARC_2 example_ARC_b1_reached, of 2 "Some 21"] h1
  have a: "\<exists>c'. ARCCache_Put example_ARC_b1 2 (Some 21) = Inr c' \<and> p c' = 1"
    by auto
  from ARC_ghost_hit_tuning [OF NewARC_2 example_ARC_b2_reached, of 1 "Some 11"] h2
  have b: "\<exists>c'. ARCCache_Put example_ARC_b2 1 (Some 11) = Inr c' \<and> p c' = 0"
    by auto
  from NewARC_2 example_ARC_b1_reached example_ARC_b2_reached h1(1,2) h2(1,2) a b
  show ?thesis by blast
qed

end
